theory Spec2Isabelle
  imports Main "HOL-Library.Word" "HOL-Library.Multiset"
begin

section \<open>GitlabStatFetcher (main.go): data model\<close>

text \<open>
  Go's \<open>int64\<close> is a 64-bit word read as two's complement (\<open>sint\<close>); a Go \<open>string\<close>
  is a byte sequence, here a \<open>char list\<close> (an Isabelle \<open>char\<close> is one byte).
\<close>

type_synonym int64 = "64 word"

definition LF :: char where "LF = CHR 0x0A"
definition CR :: char where "CR = CHR 0x0D"
definition SP :: char where "SP = CHR 0x20"
definition DQUOTE :: char where "DQUOTE = CHR 0x22"
definition COMMA :: char where "COMMA = CHR 0x2C"

text \<open>
  The fields of \<open>gitlab.Commit\<close>, \<open>gitlab.BasicMergeRequest\<close> and \<open>gitlab.Note\<close> that
  main.go reads. A \<open>*time.Time\<close> is an optional value of a type \<open>'t\<close> of instants; the
  layout \<open>time.RFC3339\<close> is a parameter \<open>rfc :: 't \<Rightarrow> string\<close> of the exporters.
\<close>

record commitStats =
  Additions :: int64
  Deletions :: int64
  Total :: int64

record 't glCommit =
  c_ProjectID :: int64
  c_ID :: string
  c_AuthorName :: string
  c_AuthorEmail :: string
  c_CommittedDate :: "'t option"
  c_Message :: string
  c_Stats :: commitStats

record basicUser =
  Username :: string
  Name :: string

record 't glMergeRequest =
  m_ProjectID :: int64
  m_ID :: int64
  m_IID :: int64
  m_Title :: string
  m_State :: string
  m_Author :: basicUser
  m_CreatedAt :: "'t option"
  m_MergedAt :: "'t option"
  m_SourceBranch :: string
  m_TargetBranch :: string
  m_SHA :: string
  m_MergeCommitSHA :: string
  m_SquashCommitSHA :: string

record 't glNote =
  n_ProjectID :: int64
  n_ID :: int64
  n_Author :: basicUser
  n_CreatedAt :: "'t option"
  n_UpdatedAt :: "'t option"
  n_Body :: string
  n_System :: bool

record glProject =
  p_ID :: int64
  p_PathWithNamespace :: string

section \<open>Formatting: strconv.FormatInt, strconv.FormatBool, formatDate\<close>

fun digits10 :: "nat \<Rightarrow> string" where
  "digits10 n = (if n < 10 then [''0123456789'' ! n]
                 else digits10 (n div 10) @ [''0123456789'' ! (n mod 10)])"

declare digits10.simps [simp del]

definition FormatInt :: "int64 \<Rightarrow> string" where
  \<comment> \<open>\<open>strconv.FormatInt(i, 10)\<close>, also what \<open>%d\<close> prints for an int64\<close>
  "FormatInt i = (if sint i < 0 then CHR ''-'' # digits10 (nat (- sint i))
                  else digits10 (nat (sint i)))"

definition FormatBool :: "bool \<Rightarrow> string" where
  "FormatBool b = (if b then ''true'' else ''false'')"

definition formatDate :: "('t \<Rightarrow> string) \<Rightarrow> 't option \<Rightarrow> string" where
  "formatDate rfc date = (case date of None \<Rightarrow> [] | Some d \<Rightarrow> rfc d)"

section \<open>strings.ReplaceAll and strings.TrimPrefix\<close>

definition ReplaceAll1 :: "string \<Rightarrow> char \<Rightarrow> char \<Rightarrow> string" where
  \<comment> \<open>\<open>strings.ReplaceAll(s, old, new)\<close> for one-byte \<open>old\<close> and \<open>new\<close>\<close>
  "ReplaceAll1 s old new = map (\<lambda>c. if c = old then new else c) s"

definition TrimPrefix :: "string \<Rightarrow> string \<Rightarrow> string" where
  "TrimPrefix s pre = (if take (length pre) s = pre then drop (length pre) s else s)"

definition cleanText :: "string \<Rightarrow> string" where
  \<comment> \<open>lines 346-347 (commit message) and 432-433 (note body)\<close>
  "cleanText msg = ReplaceAll1 (ReplaceAll1 msg LF SP) CR SP"

section \<open>encoding/csv: Writer.Write with the default settings\<close>

text \<open>
  \<open>spaceLen s\<close> is the number of bytes of the white-space rune that \<open>s\<close> starts with
  (UTF-8), and 0 when it starts with none: U+0009 to U+000D, U+0020, U+0085, U+00A0,
  U+1680, U+2000 to U+200A, U+2028, U+2029, U+202F, U+205F and U+3000, the set of
  \<open>unicode.IsSpace\<close> and of the scanner of package fmt.
\<close>

definition asciiSpace :: "char \<Rightarrow> bool" where
  "asciiSpace c = ((0x09::nat) \<le> of_char c \<and> of_char c \<le> (0x0D::nat) \<or> c = SP)"

definition spaceLen :: "string \<Rightarrow> nat" where
  "spaceLen s =
     (case s of
        [] \<Rightarrow> 0
      | c # r \<Rightarrow>
          if asciiSpace c then 1
          else if c = CHR 0xC2 then
            (if take 1 r = [CHR 0x85] \<or> take 1 r = [CHR 0xA0] then 2 else 0)
          else if c = CHR 0xE1 then (if take 2 r = [CHR 0x9A, CHR 0x80] then 3 else 0)
          else if c = CHR 0xE2 then
            (case r of
               d # e # _ \<Rightarrow>
                 if d = CHR 0x80 \<and> ((0x80::nat) \<le> of_char e \<and> of_char e \<le> (0x8A::nat) \<or>
                      e = CHR 0xA8 \<or> e = CHR 0xA9 \<or> e = CHR 0xAF)
                    \<or> d = CHR 0x81 \<and> e = CHR 0x9F
                 then 3 else 0
             | _ \<Rightarrow> 0)
          else if c = CHR 0xE3 then (if take 2 r = [CHR 0x80, CHR 0x80] then 3 else 0)
          else 0)"

definition fieldNeedsQuotes :: "string \<Rightarrow> bool" where
  "fieldNeedsQuotes field =
     (if field = [] then False
      else if field = [CHR 0x5C, CHR ''.''] then True
      else if list_ex (\<lambda>c. c = LF \<or> c = CR \<or> c = DQUOTE \<or> c = COMMA) field then True
      else spaceLen field > 0)"

definition csvField :: "string \<Rightarrow> string" where
  "csvField field =
     (if \<not> fieldNeedsQuotes field then field
      else DQUOTE # concat (map (\<lambda>c. if c = DQUOTE then [DQUOTE, DQUOTE] else [c]) field)
             @ [DQUOTE])"

fun joinComma :: "string list \<Rightarrow> string" where
  "joinComma [] = []"
| "joinComma [f] = f"
| "joinComma (f # g # fs) = f @ COMMA # joinComma (g # fs)"

definition csvWrite :: "string list \<Rightarrow> string" where
  \<comment> \<open>the bytes one \<open>w.Write(record)\<close> emits: the fields, commas between them, a line feed\<close>
  "csvWrite record = joinComma (map csvField record) @ [LF]"

section \<open>The file system\<close>

text \<open>
  A file system is the contents of its files by path, with the paths on which
  \<open>os.OpenFile\<close>/\<open>os.Open\<close>, \<open>file.Stat\<close> and a write fail. A missing file has
  no entry.
\<close>

record filesys =
  files :: "string \<Rightarrow> string option"
  open_fails :: "string \<Rightarrow> bool"
  stat_fails :: "string \<Rightarrow> bool"
  write_fails :: "string \<Rightarrow> bool"

datatype ioError = OpenError | StatError

definition content :: "filesys \<Rightarrow> string \<Rightarrow> string" where
  "content fs path = (case files fs path of None \<Rightarrow> [] | Some c \<Rightarrow> c)"

definition openAppend :: "string \<Rightarrow> filesys \<Rightarrow> filesys option" where
  \<comment> \<open>\<open>os.OpenFile(path, os.O_APPEND|os.O_CREATE|os.O_WRONLY, 0644)\<close>: creates a missing file\<close>
  "openAppend path fs =
     (if open_fails fs path then None
      else Some (fs\<lparr>files := (files fs)(path \<mapsto> content fs path)\<rparr>))"

definition appendBytes :: "string \<Rightarrow> string \<Rightarrow> filesys \<Rightarrow> filesys" where
  \<comment> \<open>what reaches an open file; a failed write leaves it as it was\<close>
  "appendBytes path bytes fs =
     (if write_fails fs path then fs
      else fs\<lparr>files := (files fs)(path \<mapsto> content fs path @ bytes)\<rparr>)"

section \<open>The CSV exporters (lines 322-448)\<close>

text \<open>
  The three exporters share their body: open for appending, \<open>stat\<close>, the header when the
  size is zero, one row per record. The results of \<open>w.Write\<close> and of the deferred
  \<open>w.Flush\<close> are dropped, so a failed write still returns \<open>nil\<close> (\<open>None\<close>).
\<close>

definition appendCSV :: "string list \<Rightarrow> string list list \<Rightarrow> string \<Rightarrow> filesys
    \<Rightarrow> filesys \<times> ioError option" where
  "appendCSV header rows filename fs =
     (case openAppend filename fs of
        None \<Rightarrow> (fs, Some OpenError)
      | Some fs1 \<Rightarrow>
          if stat_fails fs1 filename then (fs1, Some StatError)
          else
            let hasHeader = length (content fs1 filename) > 0;
                out = (if \<not> hasHeader then csvWrite header else []) @ concat (map csvWrite rows)
            in (appendBytes filename out fs1, None))"

definition commitsHeader :: "string list" where
  "commitsHeader = [''project_id'', ''id'', ''author_name'', ''author_email'', ''date'',
     ''message'', ''additions'', ''deletions'', ''total'']"

definition commitRow :: "('t \<Rightarrow> string) \<Rightarrow> 't glCommit \<Rightarrow> string list" where
  "commitRow rfc c =
     [FormatInt (c_ProjectID c), c_ID c, c_AuthorName c, c_AuthorEmail c,
      formatDate rfc (c_CommittedDate c), cleanText (c_Message c),
      FormatInt (Additions (c_Stats c)), FormatInt (Deletions (c_Stats c)),
      FormatInt (Total (c_Stats c))]"

definition writeCommitsCSV :: "('t \<Rightarrow> string) \<Rightarrow> 't glCommit list \<Rightarrow> string \<Rightarrow> filesys
    \<Rightarrow> filesys \<times> ioError option" where
  "writeCommitsCSV rfc commits filename fs =
     appendCSV commitsHeader (map (commitRow rfc) commits) filename fs"

definition mrsHeader :: "string list" where
  "mrsHeader = [''project_id'', ''mr_id'', ''title'', ''state'', ''author_username'',
     ''author_name'', ''created_at'', ''merged_at'', ''source_branch'', ''target_branch'',
     ''sha'', ''merge_commit_sha'', ''squash_commit_sha'']"

definition mrRow :: "('t \<Rightarrow> string) \<Rightarrow> 't glMergeRequest \<Rightarrow> string list" where
  "mrRow rfc m =
     [FormatInt (m_ProjectID m), FormatInt (m_ID m), m_Title m, m_State m,
      Username (m_Author m), Name (m_Author m), formatDate rfc (m_CreatedAt m),
      formatDate rfc (m_MergedAt m), m_SourceBranch m, m_TargetBranch m, m_SHA m,
      m_MergeCommitSHA m, m_SquashCommitSHA m]"

definition writeMRsCSV :: "('t \<Rightarrow> string) \<Rightarrow> 't glMergeRequest list \<Rightarrow> string \<Rightarrow> filesys
    \<Rightarrow> filesys \<times> ioError option" where
  "writeMRsCSV rfc mrs filename fs = appendCSV mrsHeader (map (mrRow rfc) mrs) filename fs"

definition notesHeader :: "string list" where
  "notesHeader = [''project_id'', ''note_id'', ''author_name'', ''author_username'',
     ''created_at'', ''updated_at'', ''body'', ''system'']"

definition noteRow :: "('t \<Rightarrow> string) \<Rightarrow> 't glNote \<Rightarrow> string list" where
  "noteRow rfc n =
     [FormatInt (n_ProjectID n), FormatInt (n_ID n), Name (n_Author n),
      Username (n_Author n), formatDate rfc (n_CreatedAt n), formatDate rfc (n_UpdatedAt n),
      cleanText (n_Body n), FormatBool (n_System n)]"

definition writeNotesCSV :: "('t \<Rightarrow> string) \<Rightarrow> 't glNote list \<Rightarrow> string \<Rightarrow> filesys
    \<Rightarrow> filesys \<times> ioError option" where
  "writeNotesCSV rfc notes filename fs =
     appendCSV notesHeader (map (noteRow rfc) notes) filename fs"

section \<open>The checkpoint store (lines 200-239)\<close>

definition indexFile :: "string \<Rightarrow> string" where
  \<comment> \<open>\<open>fmt.Sprintf("%s/.fetched_projects", dataDir)\<close>\<close>
  "indexFile dataDir = dataDir @ ''/.fetched_projects''"

datatype outcome = Done | LoggedError | Fatal | Panicked

definition markProjectFetched :: "string \<Rightarrow> int64 \<Rightarrow> string \<Rightarrow> filesys \<Rightarrow> filesys \<times> outcome" where
  \<comment> \<open>a failed open is logged and the call returns; a failed \<open>Fprintf\<close> is \<open>log.Fatalf\<close>\<close>
  "markProjectFetched dataDir projectID projectPath fs =
     (case openAppend (indexFile dataDir) fs of
        None \<Rightarrow> (fs, LoggedError)
      | Some fs1 \<Rightarrow>
          if write_fails fs1 (indexFile dataDir) then (fs1, Fatal)
          else (appendBytes (indexFile dataDir)
                  (FormatInt projectID @ [SP] @ projectPath @ [LF]) fs1, Done))"

subsection \<open>\<open>fmt.Fscanf(file, "%d %s\n", &projectID, &projectPath)\<close>\<close>

text \<open>
  One call of \<open>Fscanf\<close> with this format, on the unread bytes of the file: the scanner of
  package fmt skips spaces before a verb and fails on a line feed there; \<open>%d\<close> reads a sign
  and a run of digits and underscores and hands it to \<open>strconv.ParseInt(tok, 10, 64)\<close>,
  which rejects underscores and values outside int64; the space of the format needs a
  space (not a line feed) or the end of the input; \<open>%s\<close> reads up to the next space; the
  line feed of the format takes spaces and then a line feed or the end of the input.
  \<open>None\<close> is a call that returns an error; the identifier and the unread rest otherwise
  (the path read is not used by the caller).
\<close>

function dropSpaces :: "string \<Rightarrow> string" where
  "dropSpaces s =
     (if s \<noteq> [] \<and> hd s \<noteq> LF \<and> spaceLen s > 0 then dropSpaces (drop (spaceLen s) s) else s)"
  by pat_completeness auto
termination
  by (relation "measure length") auto

declare dropSpaces.simps [simp del]

definition SkipSpace :: "string \<Rightarrow> string option" where
  "SkipSpace s = (let r = dropSpaces s in if r \<noteq> [] \<and> hd r = LF then None else Some r)"

definition isDigit :: "char \<Rightarrow> bool" where
  "isDigit c = ((0x30::nat) \<le> of_char c \<and> of_char c \<le> (0x39::nat))"

definition digitVal :: "char \<Rightarrow> int" where
  "digitVal c = of_char c - 0x30"

definition decimalValue :: "string \<Rightarrow> int" where
  "decimalValue ds = foldl (\<lambda>acc c. 10 * acc + digitVal c) 0 ds"

definition ParseInt64 :: "bool \<Rightarrow> string \<Rightarrow> int64 option" where
  \<comment> \<open>\<open>strconv.ParseInt\<close> in base 10 on a sign and a non-empty run \<open>ds\<close>\<close>
  "ParseInt64 neg ds =
     (if ds = [] \<or> \<not> list_all isDigit ds then None
      else let v = (if neg then - decimalValue ds else decimalValue ds)
           in if - (2 ^ 63) \<le> v \<and> v < 2 ^ 63 then Some (word_of_int v) else None)"

definition scanInt :: "string \<Rightarrow> (int64 \<times> string) option" where
  "scanInt s =
     (case SkipSpace s of
        None \<Rightarrow> None
      | Some r \<Rightarrow>
          if r = [] then None
          else
            let neg = (hd r = CHR ''-'');
                r1 = (if hd r = CHR ''+'' \<or> hd r = CHR ''-'' then tl r else r);
                tok = takeWhile (\<lambda>c. isDigit c \<or> c = CHR ''_'') r1
            in case ParseInt64 neg tok of
                 None \<Rightarrow> None
               | Some v \<Rightarrow> Some (v, dropWhile (\<lambda>c. isDigit c \<or> c = CHR ''_'') r1))"

definition formatSpace :: "string \<Rightarrow> string option" where
  \<comment> \<open>the space between the verbs\<close>
  "formatSpace s =
     (if s = [] then Some []
      else if hd s = LF \<or> spaceLen s = 0 then None
      else Some (dropSpaces s))"

function dropToken :: "string \<Rightarrow> string" where
  "dropToken s = (if s = [] \<or> spaceLen s > 0 then s else dropToken (tl s))"
  by pat_completeness auto
termination
  by (relation "measure length") auto

declare dropToken.simps [simp del]

definition scanString :: "string \<Rightarrow> string option" where
  \<comment> \<open>\<open>%s\<close>: the rest after the token\<close>
  "scanString s =
     (case SkipSpace s of
        None \<Rightarrow> None
      | Some r \<Rightarrow> if r = [] then None else Some (dropToken r))"

definition formatNewline :: "string \<Rightarrow> string option" where
  "formatNewline s =
     (let r = dropSpaces s
      in if r = [] then Some [] else if hd r = LF then Some (tl r) else None)"

definition Fscanf :: "string \<Rightarrow> (int64 \<times> string) option" where
  "Fscanf inp =
     (case scanInt inp of
        None \<Rightarrow> None
      | Some (projectID, r1) \<Rightarrow>
          (case formatSpace r1 of
             None \<Rightarrow> None
           | Some r2 \<Rightarrow>
               (case scanString r2 of
                  None \<Rightarrow> None
                | Some r3 \<Rightarrow>
                    (case formatNewline r3 of
                       None \<Rightarrow> None
                     | Some r4 \<Rightarrow> Some (projectID, r4)))))"

lemma length_dropSpaces: "length (dropSpaces s) \<le> length s"
proof (induction s rule: dropSpaces.induct)
  case (1 s)
  show ?case
  proof (cases "s \<noteq> [] \<and> hd s \<noteq> LF \<and> spaceLen s > 0")
    case True
    then have "length (dropSpaces (drop (spaceLen s) s)) \<le> length (drop (spaceLen s) s)"
      using 1 by simp
    then show ?thesis using True by (subst dropSpaces.simps) simp
  next
    case False
    then show ?thesis by (subst dropSpaces.simps) auto
  qed
qed

lemma length_dropToken: "length (dropToken s) \<le> length s"
proof (induction s rule: dropToken.induct)
  case (1 s)
  show ?case
  proof (cases "s = [] \<or> spaceLen s > 0")
    case True
    then show ?thesis by (subst dropToken.simps) simp
  next
    case False
    then have "length (dropToken (tl s)) \<le> length (tl s)" using 1 by simp
    then show ?thesis using False by (subst dropToken.simps) simp
  qed
qed

lemma scanInt_shorter:
  assumes "scanInt s = Some (v, r)"
  shows "length r < length s"
proof -
  let ?P = "\<lambda>c. isDigit c \<or> c = CHR ''_''"
  from assms obtain r0 where r0: "SkipSpace s = Some r0" "r0 \<noteq> []"
    by (auto simp: scanInt_def split: option.splits if_splits)
  define r1 where "r1 = (if hd r0 = CHR ''+'' \<or> hd r0 = CHR ''-'' then tl r0 else r0)"
  from assms r0 have tok: "takeWhile ?P r1 \<noteq> []" and r: "r = dropWhile ?P r1"
    by (auto simp: scanInt_def r1_def Let_def ParseInt64_def split: option.splits if_splits)
  have "length r0 \<le> length s"
    using r0(1) length_dropSpaces [of s] by (auto simp: SkipSpace_def Let_def split: if_splits)
  moreover have "length r1 \<le> length r0" by (simp add: r1_def)
  moreover have "length (takeWhile ?P r1) + length (dropWhile ?P r1) = length r1"
    by (metis length_append takeWhile_dropWhile_id)
  ultimately show ?thesis using tok r by (cases "takeWhile ?P r1") auto
qed

lemma Fscanf_shorter:
  assumes "Fscanf inp = Some (v, rest)"
  shows "length rest < length inp"
proof -
  from assms obtain r1 r2 r3 where
    a: "scanInt inp = Some (v, r1)" and b: "formatSpace r1 = Some r2"
    and c: "scanString r2 = Some r3" and d: "formatNewline r3 = Some rest"
    by (auto simp: Fscanf_def split: option.splits prod.splits)
  have "length r2 \<le> length r1"
    using b length_dropSpaces [of r1] by (auto simp: formatSpace_def split: if_splits)
  moreover have "length r3 \<le> length r2"
  proof -
    from c obtain q where q: "SkipSpace r2 = Some q" "r3 = dropToken q"
      by (auto simp: scanString_def split: option.splits if_splits)
    have "length q \<le> length r2"
      using q(1) length_dropSpaces [of r2] by (auto simp: SkipSpace_def Let_def split: if_splits)
    then show ?thesis using q(2) length_dropToken [of q] by simp
  qed
  moreover have "length rest \<le> length r3"
    using d length_dropSpaces [of r3]
    by (auto simp: formatNewline_def Let_def split: if_splits)
  ultimately show ?thesis using scanInt_shorter [OF a] by simp
qed

function scanLoop :: "string \<Rightarrow> int64 set \<Rightarrow> int64 set" where
  \<comment> \<open>lines 213-219: every entry read is added, the first error ends the loop\<close>
  "scanLoop inp fetched =
     (case Fscanf inp of
        None \<Rightarrow> fetched
      | Some (projectID, rest) \<Rightarrow> scanLoop rest (insert projectID fetched))"
  by pat_completeness auto
termination
  by (relation "measure (\<lambda>(inp, fetched). length inp)") (auto simp: Fscanf_shorter)

declare scanLoop.simps [simp del]

definition loadFetchedProjects :: "string \<Rightarrow> filesys \<Rightarrow> int64 set" where
  \<comment> \<open>a file that cannot be opened gives the empty map\<close>
  "loadFetchedProjects dataDir fs =
     (if open_fails fs (indexFile dataDir) then {}
      else case files fs (indexFile dataDir) of
             None \<Rightarrow> {}
           | Some c \<Rightarrow> scanLoop c {})"

section \<open>extractPath (lines 183-198)\<close>

text \<open>
  \<open>url.Parse\<close> is a parameter \<open>urlParse\<close>: \<open>None\<close> for an error, the \<open>Host\<close> and
  \<open>Path\<close> of the parsed URL otherwise.
\<close>

record parsedURL =
  Host :: string
  Path :: string

datatype extractError = InvalidURL | InvalidBaseURL | HostMismatch string string

definition extractPath :: "(string \<Rightarrow> parsedURL option) \<Rightarrow> string \<Rightarrow> string
    \<Rightarrow> extractError + string" where
  "extractPath urlParse inputURL baseURL =
     (case urlParse inputURL of
        None \<Rightarrow> Inl InvalidURL
      | Some parsedInput \<Rightarrow>
          (case urlParse baseURL of
             None \<Rightarrow> Inl InvalidBaseURL
           | Some parsedBase \<Rightarrow>
               if Host parsedInput \<noteq> Host parsedBase
               then Inl (HostMismatch (Host parsedInput) (Host parsedBase))
               else Inr (TrimPrefix (Path parsedInput) ''/'')))"

text \<open>
  An instance of \<open>url.Parse\<close> for the examples: absolute URLs \<open>scheme://host/path\<close>
  with no user, query, fragment or escape. Everything else is left unparsed.
\<close>

fun splitScheme :: "string \<Rightarrow> string option" where
  "splitScheme (a # b # c # r) =
     (if [a, b, c] = ''://'' then Some r
      else if a = CHR ''/'' \<or> a = CHR ''?'' \<or> a = CHR ''#'' \<or> a = CHR ''%'' \<or> a = CHR ''@''
      then None else splitScheme (b # c # r))"
| "splitScheme _ = None"

definition simpleParse :: "string \<Rightarrow> parsedURL option" where
  "simpleParse u =
     (case splitScheme u of
        None \<Rightarrow> None
      | Some r \<Rightarrow>
          if list_ex (\<lambda>c. c = CHR ''?'' \<or> c = CHR ''#'' \<or> c = CHR ''%'' \<or> c = CHR ''@'') r
          then None
          else Some \<lparr>Host = takeWhile (\<lambda>c. c \<noteq> CHR ''/'') r,
                     Path = dropWhile (\<lambda>c. c \<noteq> CHR ''/'') r\<rparr>)"

section \<open>main (lines 39-108)\<close>



text \<open>
  \<open>make(chan []T, workers*2)\<close> (lines 457, 523 and 586), on the 64-bit \<open>int\<close>
  \<open>workers\<close>: the product wraps around, and \<open>make\<close> panics when the size is negative
  or over the largest capacity the platform allocates for a channel of slices, which is
  the parameter \<open>maxCap\<close>. \<open>None\<close> is the panic, the capacity otherwise. The loop
  \<open>for i := 0; i < workers; i++\<close> then starts \<open>numWorkers workers\<close> workers.
\<close>

definition makeChan :: "nat \<Rightarrow> int64 \<Rightarrow> nat option" where
  "makeChan maxCap workers =
     (let size = sint (workers * 2)
      in if size < 0 \<or> int maxCap < size then None else Some (nat size))"

definition numWorkers :: "int64 \<Rightarrow> nat" where
  "numWorkers workers = (if 0 < sint workers then nat (sint workers) else 0)"

datatype resolveError = ExtractFailed extractError | FetchProjectsFailed

text \<open>
  The loop over the URLs (lines 76-87). \<open>fetchProjects\<close> is
  \<open>recursivelyFetchProjectFromPath\<close> on the client, the only place of the loop that
  calls the API; the paths it was called with are returned with the result. The first
  error is \<open>log.Fatal\<close>.
\<close>

fun resolveURLs :: "(string \<Rightarrow> parsedURL option) \<Rightarrow> (string \<Rightarrow> glProject list option)
    \<Rightarrow> string \<Rightarrow> string list \<Rightarrow> string list \<Rightarrow> glProject list
    \<Rightarrow> string list \<times> (resolveError + glProject list)" where
  "resolveURLs urlParse fetchProjects baseURL [] calls allProjects = (calls, Inr allProjects)"
| "resolveURLs urlParse fetchProjects baseURL (u # urls) calls allProjects =
     (case extractPath urlParse u baseURL of
        Inl e \<Rightarrow> (calls, Inl (ExtractFailed e))
      | Inr path \<Rightarrow>
          (case fetchProjects path of
             None \<Rightarrow> (calls @ [path], Inl FetchProjectsFailed)
           | Some projects \<Rightarrow>
               resolveURLs urlParse fetchProjects baseURL urls (calls @ [path])
                 (allProjects @ projects)))"






section \<open>The paginated fetchers: fetchCommits and fetchMRs (lines 450-578)\<close>

text \<open>
  \<open>fetchCommitPage\<close> and \<open>fetchMRPage\<close> on a client whose list call answers \<open>None\<close> for an
  error: the error is logged and the page is \<open>nil\<close>.
\<close>

definition fetchCommitPage :: "(nat \<Rightarrow> 'a list option) \<Rightarrow> nat \<Rightarrow> 'a list" where
  "fetchCommitPage listCommits page =
     (case listCommits page of None \<Rightarrow> [] | Some glCommits \<Rightarrow> glCommits)"

definition fetchMRPage :: "(nat \<Rightarrow> 'a list option) \<Rightarrow> nat \<Rightarrow> 'a list" where
  "fetchMRPage listMRs page = (case listMRs page of None \<Rightarrow> [] | Some mrs \<Rightarrow> mrs)"

text \<open>
  \<open>fetchCommits\<close> and \<open>fetchMRs\<close> are the same program on two record types, so one
  model serves both, with the page function as a parameter. The goroutines interleave
  at their shared operations (the atomics of sync/atomic are sequentially consistent):
  a worker is at the load of \<open>stop\<close>, at the increment of \<open>nextPage\<close>, at the request for
  the page it claimed, at the store to \<open>stop\<close>, at the send of a page, or it has
  returned (\<open>wg.Done\<close>). The closer closes \<open>results\<close> once every worker has returned; the
  caller receives until the channel is closed and empty. \<open>requested\<close> (the pages asked
  for, in order) and \<open>signals\<close> (the stores to \<open>stop\<close>) are history variables.
  \<open>nextPage\<close> is a natural number: the int64 counter starts at 1 and wraps only after
  \<open>2^63\<close> requests.
\<close>

datatype 'a wstate = AtLoad | AtClaim | AtFetch nat | AtStore | AtSend "'a list" | Returned

record 'a fetchState =
  nextPage :: nat
  stop :: bool
  results :: "'a list list"
  closed :: bool
  workers :: "'a wstate list"
  allRecords :: "'a list"
  returned :: bool
  requested :: "nat list"
  signals :: nat

datatype actor = Worker nat | Closer | Caller

definition fetchInit :: "nat \<Rightarrow> 'a fetchState" where
  "fetchInit n =
     \<lparr>nextPage = 1, stop = False, results = [], closed = False,
      workers = replicate n AtLoad, allRecords = [], returned = False,
      requested = [], signals = 0\<rparr>"

definition workerStep :: "(nat \<Rightarrow> 'a list) \<Rightarrow> nat \<Rightarrow> 'a fetchState \<Rightarrow> 'a fetchState option" where
  "workerStep fetchPage i s =
     (if i \<ge> length (workers s) then None
      else
        case workers s ! i of
          AtLoad \<Rightarrow>
            Some (s\<lparr>workers := (workers s)[i := (if stop s then Returned else AtClaim)]\<rparr>)
        | AtClaim \<Rightarrow>
            Some (s\<lparr>nextPage := nextPage s + 1,
                    workers := (workers s)[i := AtFetch (nextPage s)]\<rparr>)
        | AtFetch page \<Rightarrow>
            Some (s\<lparr>requested := requested s @ [page],
                    workers := (workers s)[i := (if length (fetchPage page) = 0 then AtStore
                                                else AtSend (fetchPage page))]\<rparr>)
        | AtStore \<Rightarrow>
            Some (s\<lparr>stop := True, signals := signals s + 1,
                    workers := (workers s)[i := Returned]\<rparr>)
        | AtSend page \<Rightarrow>
            if length (results s) < 2 * length (workers s)
            then Some (s\<lparr>results := results s @ [page], workers := (workers s)[i := AtLoad]\<rparr>)
            else None
        | Returned \<Rightarrow> None)"

definition fetchStep :: "(nat \<Rightarrow> 'a list) \<Rightarrow> actor \<Rightarrow> 'a fetchState \<Rightarrow> 'a fetchState option" where
  "fetchStep fetchPage a s =
     (case a of
        Worker i \<Rightarrow> workerStep fetchPage i s
      | Closer \<Rightarrow>
          if list_all (\<lambda>w. w = Returned) (workers s) \<and> \<not> closed s
          then Some (s\<lparr>closed := True\<rparr>) else None
      | Caller \<Rightarrow>
          if returned s then None
          else (case results s of
                  page # rest \<Rightarrow> Some (s\<lparr>results := rest, allRecords := allRecords s @ page\<rparr>)
                | [] \<Rightarrow> if closed s then Some (s\<lparr>returned := True\<rparr>) else None))"

fun fetchRun :: "(nat \<Rightarrow> 'a list) \<Rightarrow> actor list \<Rightarrow> 'a fetchState \<Rightarrow> 'a fetchState option" where
  "fetchRun fetchPage [] s = Some s"
| "fetchRun fetchPage (a # as) s =
     (case fetchStep fetchPage a s of
        None \<Rightarrow> None
      | Some s' \<Rightarrow> fetchRun fetchPage as s')"

definition hasPages :: "(nat \<Rightarrow> 'a list) \<Rightarrow> nat \<Rightarrow> bool" where
  \<comment> \<open>a resource of \<open>P\<close> pages: pages 1 to \<open>P\<close> have records, every other page is empty\<close>
  "hasPages fetchPage P = (\<forall>page. fetchPage page \<noteq> [] \<longleftrightarrow> 1 \<le> page \<and> page \<le> P)"

section \<open>fetchDiscussions (lines 580-648)\<close>

definition fetchMRDiscussions :: "(int64 \<Rightarrow> 'a list list option) \<Rightarrow> int64 \<Rightarrow> 'a list" where
  \<comment> \<open>a discussion is the list of its notes; an error is logged and gives \<open>nil\<close>\<close>
  "fetchMRDiscussions listDiscussions mrIID =
     (case listDiscussions mrIID of
        None \<Rightarrow> []
      | Some glDiscussions \<Rightarrow> concat (filter (\<lambda>notes. length notes \<noteq> 0) glDiscussions))"

text \<open>
  A worker of \<open>fetchDiscussions\<close> is at the increment of \<open>nextIdx\<close>, at the request for the
  merge request whose index it claimed, at the send of the notes, at the increment of
  \<open>done\<close>, or it has returned. \<open>d_requested\<close> is a history variable: the worker and the
  index of every request, in order.
\<close>

datatype 'a dstate = DClaim | DFetch nat | DSend "'a list" | DCount | DReturned

record 'a discState =
  nextIdx :: nat
  d_results :: "'a list list"
  d_closed :: bool
  d_workers :: "'a dstate list"
  allNotes :: "'a list"
  d_returned :: bool
  done_count :: nat
  d_requested :: "(nat \<times> nat) list"

definition discInit :: "nat \<Rightarrow> 'a discState" where
  "discInit n =
     \<lparr>nextIdx = 0, d_results = [], d_closed = False, d_workers = replicate n DClaim,
      allNotes = [], d_returned = False, done_count = 0, d_requested = []\<rparr>"

definition discWorkerStep :: "(int64 \<Rightarrow> 'a list) \<Rightarrow> int64 list \<Rightarrow> nat \<Rightarrow> 'a discState
    \<Rightarrow> 'a discState option" where
  "discWorkerStep fetchNotes mrIIDs i s =
     (if i \<ge> length (d_workers s) then None
      else
        case d_workers s ! i of
          DClaim \<Rightarrow>
            Some (s\<lparr>nextIdx := nextIdx s + 1,
                    d_workers := (d_workers s)[i := (if nextIdx s \<ge> length mrIIDs then DReturned
                                                    else DFetch (nextIdx s))]\<rparr>)
        | DFetch idx \<Rightarrow>
            Some (s\<lparr>d_requested := d_requested s @ [(i, idx)],
                    d_workers := (d_workers s)[i := DSend (fetchNotes (mrIIDs ! idx))]\<rparr>)
        | DSend notes \<Rightarrow>
            if length (d_results s) < 2 * length (d_workers s)
            then Some (s\<lparr>d_results := d_results s @ [notes],
                         d_workers := (d_workers s)[i := DCount]\<rparr>)
            else None
        | DCount \<Rightarrow>
            Some (s\<lparr>done_count := done_count s + 1, d_workers := (d_workers s)[i := DClaim]\<rparr>)
        | DReturned \<Rightarrow> None)"

definition discStep :: "(int64 \<Rightarrow> 'a list) \<Rightarrow> int64 list \<Rightarrow> actor \<Rightarrow> 'a discState
    \<Rightarrow> 'a discState option" where
  "discStep fetchNotes mrIIDs a s =
     (case a of
        Worker i \<Rightarrow> discWorkerStep fetchNotes mrIIDs i s
      | Closer \<Rightarrow>
          if list_all (\<lambda>w. w = DReturned) (d_workers s) \<and> \<not> d_closed s
          then Some (s\<lparr>d_closed := True\<rparr>) else None
      | Caller \<Rightarrow>
          if d_returned s then None
          else (case d_results s of
                  notes # rest \<Rightarrow> Some (s\<lparr>d_results := rest, allNotes := allNotes s @ notes\<rparr>)
                | [] \<Rightarrow> if d_closed s then Some (s\<lparr>d_returned := True\<rparr>) else None))"

fun discRun :: "(int64 \<Rightarrow> 'a list) \<Rightarrow> int64 list \<Rightarrow> actor list \<Rightarrow> 'a discState
    \<Rightarrow> 'a discState option" where
  "discRun fetchNotes mrIIDs [] s = Some s"
| "discRun fetchNotes mrIIDs (a # as) s =
     (case discStep fetchNotes mrIIDs a s of
        None \<Rightarrow> None
      | Some s' \<Rightarrow> discRun fetchNotes mrIIDs as s')"

section \<open>fetchCommits, fetchMRs and fetchDiscussions from their first line\<close>

text \<open>
  Each of the three functions first makes its channel, which may panic, and then starts
  its workers; \<open>Started r\<close> holds the state a schedule leads to (\<open>None\<close> when the schedule
  names a goroutine that cannot take a step); \<open>nWorkers\<close> is the parameter \<open>workers\<close>
  of the source. The capacity of the channel in the models
  above is twice the number of workers: that is the capacity made whenever a worker is
  started, and with no worker nothing is ever sent.
\<close>

datatype 's started = PanicMakechan | Started 's

definition fetchCommits :: "nat \<Rightarrow> (nat \<Rightarrow> 'a list option) \<Rightarrow> int64 \<Rightarrow> actor list
    \<Rightarrow> 'a fetchState option started" where
  "fetchCommits maxCap listCommits nWorkers sched =
     (case makeChan maxCap nWorkers of
        None \<Rightarrow> PanicMakechan
      | Some capacity \<Rightarrow>
          Started (fetchRun (fetchCommitPage listCommits) sched
                     (fetchInit (numWorkers nWorkers))))"

definition fetchMRs :: "nat \<Rightarrow> (nat \<Rightarrow> 'a list option) \<Rightarrow> int64 \<Rightarrow> actor list
    \<Rightarrow> 'a fetchState option started" where
  "fetchMRs maxCap listMRs nWorkers sched =
     (case makeChan maxCap nWorkers of
        None \<Rightarrow> PanicMakechan
      | Some capacity \<Rightarrow>
          Started (fetchRun (fetchMRPage listMRs) sched (fetchInit (numWorkers nWorkers))))"

definition fetchDiscussions :: "nat \<Rightarrow> (int64 \<Rightarrow> 'a list list option) \<Rightarrow> int64 list
    \<Rightarrow> int64 \<Rightarrow> actor list \<Rightarrow> 'a discState option started" where
  "fetchDiscussions maxCap listDiscussions mrIIDs nWorkers sched =
     (case makeChan maxCap nWorkers of
        None \<Rightarrow> PanicMakechan
      | Some capacity \<Rightarrow>
          Started (discRun (fetchMRDiscussions listDiscussions) mrIIDs sched
                     (discInit (numWorkers nWorkers))))"

section \<open>Notions the properties are stated with\<close>

definition noBreaks :: "string \<Rightarrow> bool" where
  "noBreaks s = (LF \<notin> set s \<and> CR \<notin> set s)"

fun exportAll :: "('b \<Rightarrow> string \<Rightarrow> filesys \<Rightarrow> filesys \<times> ioError option) \<Rightarrow> 'b list \<Rightarrow> string
    \<Rightarrow> filesys \<Rightarrow> filesys" where
  "exportAll w [] filename fs = fs"
| "exportAll w (b # bs) filename fs = exportAll w bs filename (fst (w b filename fs))"

definition writable :: "filesys \<Rightarrow> string \<Rightarrow> bool" where
  "writable fs path = (\<not> open_fails fs path \<and> \<not> stat_fails fs path \<and> \<not> write_fails fs path)"

definition exampleMessage :: string where
  "exampleMessage = ''line1'' @ [LF] @ ''line2'' @ [CR, LF]"

definition exampleCommit :: "unit glCommit" where
  "exampleCommit =
     \<lparr>c_ProjectID = 7, c_ID = ''abc123'', c_AuthorName = ''Ann'',
      c_AuthorEmail = ''ann@example.org'', c_CommittedDate = None,
      c_Message = exampleMessage,
      c_Stats = \<lparr>Additions = 1, Deletions = 2, Total = 3\<rparr>\<rparr>"

definition emptyFS :: filesys where
  \<comment> \<open>no file, no failure\<close>
  "emptyFS = \<lparr>files = (\<lambda>path. None), open_fails = (\<lambda>path. False),
     stat_fails = (\<lambda>path. False), write_fails = (\<lambda>path. False)\<rparr>"

definition entryLine :: "glProject \<Rightarrow> string" where
  \<comment> \<open>the line \<open>markProjectFetched\<close> appends for a project\<close>
  "entryLine project = FormatInt (p_ID project) @ [SP] @ p_PathWithNamespace project @ [LF]"




definition plainChar :: "char \<Rightarrow> bool" where
  \<comment> \<open>an ASCII character that is not white space\<close>
  "plainChar c = ((of_char c :: nat) < 128 \<and> \<not> asciiSpace c)"

definition validPath :: "string \<Rightarrow> bool" where
  \<comment> \<open>a project path: not empty, of ASCII characters, without white space\<close>
  "validPath p = (p \<noteq> [] \<and> list_all plainChar p)"

definition malformedIndexFS :: filesys where
  \<comment> \<open>an index file with one entry and a second line that is none\<close>
  "malformedIndexFS =
     emptyFS\<lparr>files := (\<lambda>path. if path = indexFile ''data''
                                then Some (''5 a'' @ [LF] @ ''xx'' @ [LF]) else None)\<rparr>"

text \<open>
  What the workers of a paginated fetcher hold: the records of a page on its way to the
  caller, the page number claimed and not yet requested, whether the worker has claimed
  a page after the last one or has returned, and a weight that bounds the steps the
  worker still takes.
\<close>

fun inflight :: "(nat \<Rightarrow> 'a list) \<Rightarrow> 'a wstate \<Rightarrow> 'a multiset" where
  "inflight fetchPage (AtFetch page) = mset (fetchPage page)"
| "inflight fetchPage (AtSend records) = mset records"
| "inflight fetchPage w = {#}"

fun claimed :: "'a wstate \<Rightarrow> nat multiset" where
  "claimed (AtFetch page) = {#page#}"
| "claimed w = {#}"

fun spent :: "nat \<Rightarrow> 'a wstate \<Rightarrow> nat" where
  "spent P (AtFetch page) = (if P < page then 1 else 0)"
| "spent P AtStore = 1"
| "spent P Returned = 1"
| "spent P w = 0"

fun hasReturned :: "'a wstate \<Rightarrow> nat" where
  "hasReturned Returned = 1"
| "hasReturned w = 0"

fun weight :: "(nat \<Rightarrow> 'a list) \<Rightarrow> 'a wstate \<Rightarrow> nat" where
  "weight fetchPage Returned = 0"
| "weight fetchPage AtStore = 1"
| "weight fetchPage (AtFetch page) = (if fetchPage page = [] then 2 else 7)"
| "weight fetchPage AtClaim = 3"
| "weight fetchPage AtLoad = 4"
| "weight fetchPage (AtSend records) = 6"

definition fetchMeasure :: "(nat \<Rightarrow> 'a list) \<Rightarrow> nat \<Rightarrow> 'a fetchState \<Rightarrow> nat" where
  "fetchMeasure fetchPage P s =
     5 * (P + 1 - nextPage s) + sum_list (map (weight fetchPage) (workers s))
       + length (results s) + (if closed s then 0 else 1) + (if returned s then 0 else 1)"

definition fetchInv :: "(nat \<Rightarrow> 'a list) \<Rightarrow> nat \<Rightarrow> nat \<Rightarrow> 'a fetchState \<Rightarrow> bool" where
  "fetchInv fetchPage P N s =
     (length (workers s) = N
      \<and> 1 \<le> nextPage s
      \<and> mset (allRecords s) + mset (concat (results s))
          + sum_list (map (inflight fetchPage) (workers s))
          + mset (concat (map fetchPage [nextPage s..<P + 1]))
          = mset (concat (map fetchPage [1..<P + 1]))
      \<and> mset (requested s) + sum_list (map claimed (workers s)) = mset [1..<nextPage s]
      \<and> (stop s \<longrightarrow> P < nextPage s)
      \<and> (AtStore \<in> set (workers s) \<longrightarrow> P < nextPage s)
      \<and> (Returned \<in> set (workers s) \<longrightarrow> stop s)
      \<and> (closed s \<longrightarrow> list_all (\<lambda>w. w = Returned) (workers s))
      \<and> (returned s \<longrightarrow> closed s \<and> results s = [])
      \<and> nextPage s \<le> P + 1 + sum_list (map (spent P) (workers s))
      \<and> signals s \<le> sum_list (map hasReturned (workers s))
      \<and> (stop s \<longleftrightarrow> 0 < signals s))"

text \<open>The same for the workers of \<open>fetchDiscussions\<close>.\<close>

fun dclaimed :: "'a dstate \<Rightarrow> nat multiset" where
  "dclaimed (DFetch idx) = {#idx#}"
| "dclaimed w = {#}"

fun dweight :: "'a dstate \<Rightarrow> nat" where
  "dweight DReturned = 0"
| "dweight DClaim = 1"
| "dweight DCount = 2"
| "dweight (DSend notes) = 4"
| "dweight (DFetch idx) = 5"

definition discMeasure :: "nat \<Rightarrow> 'a discState \<Rightarrow> nat" where
  "discMeasure M s =
     5 * (M - nextIdx s) + sum_list (map dweight (d_workers s))
       + length (d_results s) + (if d_closed s then 0 else 1) + (if d_returned s then 0 else 1)"

definition discInv :: "nat \<Rightarrow> nat \<Rightarrow> 'a discState \<Rightarrow> bool" where
  "discInv M N s =
     (length (d_workers s) = N
      \<and> mset (map snd (d_requested s)) + sum_list (map dclaimed (d_workers s))
          = mset [0..<min (nextIdx s) M]
      \<and> (\<forall>r \<in> set (d_requested s). fst r < N)
      \<and> (DReturned \<in> set (d_workers s) \<longrightarrow> M \<le> nextIdx s)
      \<and> (d_closed s \<longrightarrow> list_all (\<lambda>w. w = DReturned) (d_workers s))
      \<and> (d_returned s \<longrightarrow> d_closed s \<and> d_results s = []))"

text \<open>
  Two resources and three schedules for the examples: a resource of two pages
  (\<open>ab\<close> and \<open>c\<close>), fetched by two workers and by one, and a resource with no record,
  fetched by two workers that both load \<open>stop\<close> before either has an answer.
\<close>

definition twoPages :: "nat \<Rightarrow> string option" where
  "twoPages page = (if page = 1 then Some ''ab'' else if page = 2 then Some ''c'' else Some [])"

definition twoWorkersSchedule :: "actor list" where
  "twoWorkersSchedule =
     [Worker 0, Worker 0, Worker 1, Worker 1, Worker 0, Worker 1, Worker 1, Worker 0,
      Worker 0, Worker 0, Worker 0, Worker 0, Worker 1, Closer, Caller, Caller, Caller]"

definition oneWorkerSchedule :: "actor list" where
  "oneWorkerSchedule =
     [Worker 0, Worker 0, Worker 0, Worker 0, Caller, Worker 0, Worker 0, Worker 0, Worker 0,
      Worker 0, Worker 0, Worker 0, Worker 0, Closer, Caller, Caller]"

definition noPages :: "nat \<Rightarrow> string option" where
  "noPages page = Some []"

definition overshootSchedule :: "actor list" where
  "overshootSchedule =
     [Worker 0, Worker 1, Worker 0, Worker 1, Worker 0, Worker 1, Worker 0, Worker 1,
      Closer, Caller]"

text \<open>
  Three merge requests for the examples: the first has two discussions, one of them
  without notes, the request for the second fails, the third has one discussion.
\<close>

definition threeMRs :: "int64 list" where
  "threeMRs = [10, 20, 30]"

definition exampleDiscussions :: "int64 \<Rightarrow> string list option" where
  "exampleDiscussions mrIID =
     (if mrIID = 10 then Some [''x'', []] else if mrIID = 20 then None else Some [''yz''])"

definition discussionSchedule :: "actor list" where
  "discussionSchedule =
     [Worker 0, Worker 1, Worker 0, Worker 0, Worker 0, Worker 0, Worker 1, Worker 1,
      Worker 1, Worker 1, Worker 0, Worker 0, Worker 0, Worker 0, Closer, Caller, Caller,
      Caller, Caller]"

text \<open>
  A client that serves a resource with no fetch error: the page numbers 1 to the number
  of pages give the pages, none of them empty, and every other page number gives an
  empty page.
\<close>

definition servesPages :: "(nat \<Rightarrow> 'a list option) \<Rightarrow> 'a list list \<Rightarrow> bool" where
  "servesPages listPage pages =
     ([] \<notin> set pages
      \<and> (\<forall>page. listPage page
            = Some (if 1 \<le> page \<and> page \<le> length pages then pages ! (page - 1) else [])))"

text \<open>
  A client whose page 1 is empty and whose page 2 has a record, and a schedule of two
  workers that both load \<open>stop\<close> before either has an answer.
\<close>

definition gapPages :: "nat \<Rightarrow> string option" where
  "gapPages page = (if page = 2 then Some ''x'' else Some [])"

definition gapSchedule :: "actor list" where
  "gapSchedule =
     [Worker 0, Worker 1, Worker 0, Worker 1, Worker 0, Worker 1, Worker 0, Worker 1,
      Worker 1, Closer, Caller, Caller]"

text \<open>
  The notes of \<open>fetchDiscussions\<close>: those a worker is about to fetch or to send, and the
  equation that no note is lost or made up between the merge requests not yet claimed,
  the workers, the channel and the caller.
\<close>

fun dinflight :: "(int64 \<Rightarrow> 'a list) \<Rightarrow> int64 list \<Rightarrow> 'a dstate \<Rightarrow> 'a multiset" where
  "dinflight fetchNotes mrIIDs (DFetch idx) = mset (fetchNotes (mrIIDs ! idx))"
| "dinflight fetchNotes mrIIDs (DSend fetched) = mset fetched"
| "dinflight fetchNotes mrIIDs w = {#}"

definition discNotesInv :: "(int64 \<Rightarrow> 'a list) \<Rightarrow> int64 list \<Rightarrow> 'a discState \<Rightarrow> bool" where
  "discNotesInv fetchNotes mrIIDs s =
     (mset (allNotes s) + mset (concat (d_results s))
        + sum_list (map (dinflight fetchNotes mrIIDs) (d_workers s))
        + mset (concat (map fetchNotes (drop (nextIdx s) mrIIDs)))
      = mset (concat (map fetchNotes mrIIDs)))"


definition exampleMaxCap :: nat where
  \<comment> \<open>the limit of \<open>make\<close> for a channel of slices on linux/amd64:
      \<open>(2^48 - 96) div 24\<close>\<close>
  "exampleMaxCap = 11728124029606"

section \<open>The CSV exporters: lemmas\<close>

lemma digits10_set: "set (digits10 n) \<subseteq> set ''0123456789''"
proof (induction n rule: digits10.induct)
  case (1 n)
  have nth_in: "\<And>k. k < 10 \<Longrightarrow> ''0123456789'' ! k \<in> set ''0123456789''"
    by (rule nth_mem) simp
  show ?case
  proof (cases "n < 10")
    case True
    then show ?thesis using nth_in [of n] by (subst digits10.simps) simp
  next
    case False
    have "n mod 10 < 10" by simp
    from nth_in [OF this] 1 False show ?thesis
      by (subst digits10.simps) simp
  qed
qed

lemma digits10_nonempty: "digits10 n \<noteq> []"
  by (subst digits10.simps) simp

lemma noBreaks_digits10: "noBreaks (digits10 n)"
  using digits10_set [of n] by (auto simp: noBreaks_def LF_def CR_def)

lemma noBreaks_FormatInt: "noBreaks (FormatInt i)"
  using noBreaks_digits10 by (simp add: FormatInt_def noBreaks_def LF_def CR_def)

lemma cleanText_map: "cleanText msg = map (\<lambda>c. if c = LF \<or> c = CR then SP else c) msg"
  by (auto simp: cleanText_def ReplaceAll1_def LF_def CR_def SP_def)

lemma noBreaks_cleanText: "noBreaks (cleanText msg)"
  by (auto simp: cleanText_map noBreaks_def LF_def CR_def SP_def)

lemma noBreaks_csvField: "noBreaks f \<Longrightarrow> noBreaks (csvField f)"
  by (auto simp: noBreaks_def csvField_def LF_def CR_def DQUOTE_def split: if_splits)

lemma noBreaks_joinComma: "\<forall>f \<in> set fs. noBreaks f \<Longrightarrow> noBreaks (joinComma fs)"
  by (induction fs rule: joinComma.induct) (auto simp: noBreaks_def LF_def CR_def COMMA_def)

lemma csvWrite_one_line:
  assumes "\<forall>f \<in> set fs. noBreaks f"
  shows "count_list (csvWrite fs) LF = 1 \<and> last (csvWrite fs) = LF \<and> CR \<notin> set (csvWrite fs)"
proof -
  have "noBreaks (joinComma (map csvField fs))"
    using assms by (intro noBreaks_joinComma) (simp add: noBreaks_csvField)
  then have "LF \<notin> set (joinComma (map csvField fs))" "CR \<notin> set (joinComma (map csvField fs))"
    by (simp_all add: noBreaks_def)
  then show ?thesis
    by (simp add: csvWrite_def count_list_0_iff LF_def CR_def)
qed

lemma appendCSV_content:
  assumes "writable fs f"
  shows "content (fst (appendCSV h rows f fs)) f =
           content fs f @ (if length (content fs f) = 0 then csvWrite h else [])
             @ concat (map csvWrite rows)"
  using assms
  by (simp add: appendCSV_def openAppend_def appendBytes_def content_def writable_def Let_def)

lemma appendCSV_writable:
  "writable (fst (appendCSV h rows f fs)) f = writable fs f"
  by (simp add: appendCSV_def openAppend_def appendBytes_def content_def writable_def Let_def)

lemma csvWrite_nonempty: "csvWrite r \<noteq> []"
  by (simp add: csvWrite_def)

lemma exportAll_nonempty_file:
  assumes "writable fs f" "content fs f \<noteq> []"
  shows "content (exportAll (\<lambda>b. appendCSV h (rows b)) bs f fs) f =
           content fs f @ concat (map csvWrite (concat (map rows bs)))"
  using assms
proof (induction bs arbitrary: fs)
  case Nil
  then show ?case by simp
next
  case (Cons b bs)
  let ?fs1 = "fst (appendCSV h (rows b) f fs)"
  have c1: "content ?fs1 f = content fs f @ concat (map csvWrite (rows b))"
    using Cons.prems by (simp add: appendCSV_content)
  have "content ?fs1 f \<noteq> []" using Cons.prems c1 by simp
  moreover have "writable ?fs1 f" using Cons.prems by (simp add: appendCSV_writable)
  ultimately show ?case using Cons.IH [of ?fs1] c1 by simp
qed

lemma exportAll_empty_file:
  assumes "writable fs f" "content fs f = []" "bs \<noteq> []"
  shows "content (exportAll (\<lambda>b. appendCSV h (rows b)) bs f fs) f =
           csvWrite h @ concat (map csvWrite (concat (map rows bs)))"
proof (cases bs)
  case Nil
  with assms show ?thesis by simp
next
  case (Cons b bs')
  let ?fs1 = "fst (appendCSV h (rows b) f fs)"
  have c1: "content ?fs1 f = csvWrite h @ concat (map csvWrite (rows b))"
    using assms by (simp add: appendCSV_content)
  have "content ?fs1 f \<noteq> []" using c1 csvWrite_nonempty by simp
  moreover have "writable ?fs1 f" using assms by (simp add: appendCSV_writable)
  ultimately show ?thesis
    using exportAll_nonempty_file [of ?fs1 f h rows bs'] c1 Cons by simp
qed

lemma digits10_minus_set: "set (digits10 n) \<subseteq> set ''-0123456789''"
  by (rule order_trans [OF digits10_set]) (rule set_subset_Cons)

lemma FormatInt_chars: "set (FormatInt i) \<subseteq> set ''-0123456789''"
proof (cases "sint i < 0")
  case True
  have "CHR ''-'' \<in> set ''-0123456789''" by simp
  then have "set (CHR ''-'' # digits10 (nat (- sint i))) \<subseteq> set ''-0123456789''"
    using digits10_minus_set [of "nat (- sint i)"] by (simp only: set_simps insert_subset)
  then show ?thesis using True by (simp only: FormatInt_def if_True)
next
  case False
  then show ?thesis using digits10_minus_set [of "nat (sint i)"]
    by (simp only: FormatInt_def if_False)
qed

lemma FormatInt_nonempty: "FormatInt i \<noteq> []"
  by (simp add: FormatInt_def digits10_nonempty)

lemma spaceLen_ascii:
  assumes "(of_char c :: nat) < 128" "\<not> asciiSpace c"
  shows "spaceLen (c # r) = 0"
proof -
  have "c \<noteq> CHR 0xC2" "c \<noteq> CHR 0xE1" "c \<noteq> CHR 0xE2" "c \<noteq> CHR 0xE3"
    using assms(1) by auto
  then show ?thesis using assms(2) by (simp add: spaceLen_def)
qed

lemma digit_plain:
  assumes "c \<in> set ''-0123456789''"
  shows "(of_char c :: nat) < 128" "\<not> asciiSpace c"
  using assms by (auto simp: asciiSpace_def SP_def)

lemma plain_not_quoted:
  assumes "f = c # r" "(of_char c :: nat) < 128" "\<not> asciiSpace c"
    "LF \<notin> set f" "CR \<notin> set f" "DQUOTE \<notin> set f" "COMMA \<notin> set f" "CHR 0x5C \<notin> set f"
  shows "csvField f = f"
proof -
  have "spaceLen f = 0" using assms(1-3) by (simp add: spaceLen_ascii)
  moreover have "\<not> list_ex (\<lambda>c. c = LF \<or> c = CR \<or> c = DQUOTE \<or> c = COMMA) f"
    using assms(4-7) by (auto simp: list_ex_iff)
  moreover have "f \<noteq> [CHR 0x5C, CHR ''.'']" using assms(8) by auto
  ultimately show ?thesis by (simp add: csvField_def fieldNeedsQuotes_def)
qed

lemma FormatInt_hd:
  obtains c r where "FormatInt i = c # r" "c \<in> set ''-0123456789''"
proof -
  obtain c r where cr: "FormatInt i = c # r"
    using FormatInt_nonempty by (cases "FormatInt i") auto
  moreover have "c \<in> set ''-0123456789''" using FormatInt_chars [of i] cr by auto
  ultimately show ?thesis using that by blast
qed

lemma csvField_FormatInt: "csvField (FormatInt i) = FormatInt i"
proof -
  obtain c r where cr: "FormatInt i = c # r" "c \<in> set ''-0123456789''"
    by (rule FormatInt_hd)
  have nin: "\<And>x. x \<notin> set ''-0123456789'' \<Longrightarrow> x \<notin> set (FormatInt i)"
    using FormatInt_chars [of i] by blast
  show ?thesis
    by (rule plain_not_quoted [OF cr(1) digit_plain [OF cr(2)]])
       (rule nin, simp add: LF_def CR_def DQUOTE_def COMMA_def)+
qed

lemma hd_csvWrite:
  "f \<noteq> [] \<Longrightarrow> hd (csvWrite (f # fs)) = hd (csvField f)"
  by (cases fs) (simp_all add: csvWrite_def csvField_def)

lemma hd_csvWrite_FormatInt:
  "hd (csvWrite (FormatInt i # fs)) \<in> set ''-0123456789''"
proof -
  obtain c r where cr: "FormatInt i = c # r" "c \<in> set ''-0123456789''"
    by (rule FormatInt_hd)
  have "hd (csvWrite (FormatInt i # fs)) = hd (FormatInt i)"
    by (simp only: hd_csvWrite [OF FormatInt_nonempty] csvField_FormatInt)
  then show ?thesis using cr by simp
qed

lemma project_id_plain: "csvField ''project_id'' = ''project_id''"
  by (rule plain_not_quoted [where c = "CHR ''p''"])
     (simp_all add: asciiSpace_def LF_def CR_def DQUOTE_def COMMA_def SP_def)

lemma hd_header:
  "hd (csvWrite commitsHeader) = CHR ''p''" "hd (csvWrite mrsHeader) = CHR ''p''"
  "hd (csvWrite notesHeader) = CHR ''p''"
  unfolding commitsHeader_def mrsHeader_def notesHeader_def
  by (simp_all add: hd_csvWrite project_id_plain)

lemma row_not_header:
  assumes "hd (csvWrite h) = CHR ''p''"
  shows "csvWrite (FormatInt i # fs) \<noteq> csvWrite h"
proof
  assume "csvWrite (FormatInt i # fs) = csvWrite h"
  then have "hd (csvWrite (FormatInt i # fs)) = CHR ''p''" using assms by simp
  moreover have "CHR ''p'' \<notin> set ''-0123456789''" by simp
  ultimately show False using hd_csvWrite_FormatInt [of i fs] by (simp only:)
qed

lemma commitRow_not_header: "csvWrite (commitRow rfc c) \<noteq> csvWrite commitsHeader"
  unfolding commitRow_def by (rule row_not_header [OF hd_header(1)])

lemma mrRow_not_header: "csvWrite (mrRow rfc c) \<noteq> csvWrite mrsHeader"
  unfolding mrRow_def by (rule row_not_header [OF hd_header(2)])

lemma noteRow_not_header: "csvWrite (noteRow rfc c) \<noteq> csvWrite notesHeader"
  unfolding noteRow_def by (rule row_not_header [OF hd_header(3)])

section \<open>C3: the commit message in the CSV file\<close>

lemma cleanText_example: "cleanText exampleMessage = ''line1 line2  ''"
  by (simp add: cleanText_def ReplaceAll1_def exampleMessage_def LF_def CR_def SP_def)

lemma csvField_example: "csvField ''line1 line2  '' = ''line1 line2  ''"
  by (rule plain_not_quoted [where c = "CHR ''l''"])
     (simp_all add: asciiSpace_def LF_def CR_def DQUOTE_def COMMA_def SP_def)

text \<open>
  C3, as the code has it. The message field of a commit's row is the message with every
  line feed and every carriage return replaced by one space each, so the message
  \<open>line1\nline2\r\n\<close> is written as \<open>line1 line2\<close> followed by two spaces (one for the
  carriage return, one for the line feed). The row is one physical line (one line feed,
  at its end, and no carriage return) when the commit's identifier, author name, author
  email and formatted date hold no line break: only the message is cleaned.
\<close>

theorem C3_message_sanitized:
  fixes c :: "'t glCommit"
  assumes "noBreaks (c_ID c)" and "noBreaks (c_AuthorName c)" and "noBreaks (c_AuthorEmail c)"
    and "noBreaks (formatDate rfc (c_CommittedDate c))"
  shows "commitRow rfc c ! 5 = map (\<lambda>x. if x = LF \<or> x = CR then SP else x) (c_Message c)
       \<and> cleanText exampleMessage = ''line1 line2  ''
       \<and> csvField (cleanText exampleMessage) = ''line1 line2  ''
       \<and> count_list (csvWrite (commitRow rfc c)) LF = 1
       \<and> last (csvWrite (commitRow rfc c)) = LF
       \<and> CR \<notin> set (csvWrite (commitRow rfc c))"
proof -
  have field: "commitRow rfc c ! 5 = cleanText (c_Message c)"
    by (simp add: commitRow_def)
  have "\<forall>f \<in> set (commitRow rfc c). noBreaks f"
    using assms by (simp add: commitRow_def noBreaks_FormatInt noBreaks_cleanText)
  from csvWrite_one_line [OF this] field [unfolded cleanText_map] show ?thesis
    by (simp only: cleanText_example csvField_example simp_thms)
qed

text \<open>The theorem at the example commit, whose message is the message of the claim.\<close>

theorem C3_message_sanitized_witness:
  "noBreaks (c_ID exampleCommit) \<and> noBreaks (c_AuthorName exampleCommit)
   \<and> noBreaks (c_AuthorEmail exampleCommit)
   \<and> noBreaks (formatDate (\<lambda>t. []) (c_CommittedDate exampleCommit))
   \<and> commitRow (\<lambda>t. []) exampleCommit ! 5 = ''line1 line2  ''
   \<and> count_list (csvWrite (commitRow (\<lambda>t. []) exampleCommit)) LF = 1"
proof -
  have h: "noBreaks (c_ID exampleCommit)" "noBreaks (c_AuthorName exampleCommit)"
    "noBreaks (c_AuthorEmail exampleCommit)"
    "noBreaks (formatDate (\<lambda>t. []) (c_CommittedDate exampleCommit))"
    by (simp_all add: exampleCommit_def noBreaks_def formatDate_def LF_def CR_def)
  have m: "map (\<lambda>x. if x = LF \<or> x = CR then SP else x) (c_Message exampleCommit)
             = ''line1 line2  ''"
    by (simp add: exampleCommit_def exampleMessage_def LF_def CR_def SP_def)
  from C3_message_sanitized [OF h] h m show ?thesis by simp
qed

text \<open>
  C3 as stated fails: the cleaned example message is not \<open>line1 line2\<close> with a single
  trailing space, and a commit whose author name holds a line feed is written on two
  physical lines.
\<close>

theorem C3_counterexample:
  "cleanText exampleMessage \<noteq> ''line1 line2 ''
   \<and> count_list (csvWrite (commitRow (\<lambda>t. [])
        (exampleCommit\<lparr>c_AuthorName := ''A'' @ [LF] @ ''B''\<rparr>))) LF = 2"
proof -
  have a: "cleanText exampleMessage \<noteq> ''line1 line2 ''"
    by (simp add: cleanText_example)
  have q: "csvField [CHR ''A'', LF, CHR ''B''] = [DQUOTE, CHR ''A'', LF, CHR ''B'', DQUOTE]"
    by (simp add: csvField_def fieldNeedsQuotes_def LF_def CR_def DQUOTE_def COMMA_def)
  have n: "LF \<notin> set (FormatInt i)" for i
    using noBreaks_FormatInt [of i] by (simp add: noBreaks_def)
  have p: "csvField ''abc123'' = ''abc123''" "csvField ''ann@example.org'' = ''ann@example.org''"
    by (rule plain_not_quoted [where c = "CHR ''a''"],
        simp_all add: asciiSpace_def LF_def CR_def DQUOTE_def COMMA_def SP_def)+
  have e: "csvField [] = []" by (simp add: csvField_def fieldNeedsQuotes_def)
  have b: "count_list (csvWrite (commitRow (\<lambda>t. [])
        (exampleCommit\<lparr>c_AuthorName := ''A'' @ [LF] @ ''B''\<rparr>))) LF = 2"
    using n
    by (simp add: csvWrite_def commitRow_def exampleCommit_def formatDate_def
        csvField_FormatInt q [unfolded LF_def DQUOTE_def] p e cleanText_example
        csvField_example count_list_0_iff LF_def DQUOTE_def COMMA_def)
  from a b show ?thesis by simp
qed

section \<open>C6: the header of a CSV file\<close>

lemma exporters_eta:
  "writeCommitsCSV rfc = (\<lambda>b. appendCSV commitsHeader (map (commitRow rfc) b))"
  "writeMRsCSV rfc = (\<lambda>b. appendCSV mrsHeader (map (mrRow rfc) b))"
  "writeNotesCSV rfc = (\<lambda>b. appendCSV notesHeader (map (noteRow rfc) b))"
  by (rule ext, rule ext, rule ext, simp add: writeCommitsCSV_def writeMRsCSV_def writeNotesCSV_def)+

text \<open>
  C6. With no failure on the file's path, each of the three exporters appends the header
  row exactly when the file is empty (or missing) as it is opened, and then its rows. So
  a sequence of calls of one exporter on one file that starts empty leaves the header
  once, at the top, before all the rows; on a file that starts non-empty no call writes
  a header. No row is written as the header's line.
\<close>

theorem C6_header_once:
  fixes cs :: "'t glCommit list" and ms :: "'t glMergeRequest list" and ns :: "'t glNote list"
    and cbs :: "'t glCommit list list" and mbs :: "'t glMergeRequest list list"
    and nbs :: "'t glNote list list"
  assumes "writable fs f"
  shows "content (fst (writeCommitsCSV rfc cs f fs)) f =
           content fs f @ (if length (content fs f) = 0 then csvWrite commitsHeader else [])
             @ concat (map csvWrite (map (commitRow rfc) cs))
       \<and> content (fst (writeMRsCSV rfc ms f fs)) f =
           content fs f @ (if length (content fs f) = 0 then csvWrite mrsHeader else [])
             @ concat (map csvWrite (map (mrRow rfc) ms))
       \<and> content (fst (writeNotesCSV rfc ns f fs)) f =
           content fs f @ (if length (content fs f) = 0 then csvWrite notesHeader else [])
             @ concat (map csvWrite (map (noteRow rfc) ns))
       \<and> (content fs f = [] \<and> cbs \<noteq> [] \<longrightarrow>
            content (exportAll (writeCommitsCSV rfc) cbs f fs) f =
              csvWrite commitsHeader
                @ concat (map csvWrite (concat (map (map (commitRow rfc)) cbs))))
       \<and> (content fs f = [] \<and> mbs \<noteq> [] \<longrightarrow>
            content (exportAll (writeMRsCSV rfc) mbs f fs) f =
              csvWrite mrsHeader @ concat (map csvWrite (concat (map (map (mrRow rfc)) mbs))))
       \<and> (content fs f = [] \<and> nbs \<noteq> [] \<longrightarrow>
            content (exportAll (writeNotesCSV rfc) nbs f fs) f =
              csvWrite notesHeader
                @ concat (map csvWrite (concat (map (map (noteRow rfc)) nbs))))
       \<and> (content fs f \<noteq> [] \<longrightarrow>
            content (exportAll (writeCommitsCSV rfc) cbs f fs) f =
              content fs f @ concat (map csvWrite (concat (map (map (commitRow rfc)) cbs)))
          \<and> content (exportAll (writeMRsCSV rfc) mbs f fs) f =
              content fs f @ concat (map csvWrite (concat (map (map (mrRow rfc)) mbs)))
          \<and> content (exportAll (writeNotesCSV rfc) nbs f fs) f =
              content fs f @ concat (map csvWrite (concat (map (map (noteRow rfc)) nbs))))
       \<and> csvWrite (commitRow rfc c) \<noteq> csvWrite commitsHeader
       \<and> csvWrite (mrRow rfc m) \<noteq> csvWrite mrsHeader
       \<and> csvWrite (noteRow rfc n) \<noteq> csvWrite notesHeader"
proof -
  note one = appendCSV_content [OF assms]
  note emp = exportAll_empty_file [OF assms]
  note non = exportAll_nonempty_file [OF assms]
  have 1: "content (fst (writeCommitsCSV rfc cs f fs)) f =
           content fs f @ (if length (content fs f) = 0 then csvWrite commitsHeader else [])
             @ concat (map csvWrite (map (commitRow rfc) cs))"
    unfolding writeCommitsCSV_def by (rule one)
  have 2: "content (fst (writeMRsCSV rfc ms f fs)) f =
           content fs f @ (if length (content fs f) = 0 then csvWrite mrsHeader else [])
             @ concat (map csvWrite (map (mrRow rfc) ms))"
    unfolding writeMRsCSV_def by (rule one)
  have 3: "content (fst (writeNotesCSV rfc ns f fs)) f =
           content fs f @ (if length (content fs f) = 0 then csvWrite notesHeader else [])
             @ concat (map csvWrite (map (noteRow rfc) ns))"
    unfolding writeNotesCSV_def by (rule one)
  have 4: "content fs f = [] \<and> cbs \<noteq> [] \<longrightarrow>
            content (exportAll (writeCommitsCSV rfc) cbs f fs) f =
              csvWrite commitsHeader
                @ concat (map csvWrite (concat (map (map (commitRow rfc)) cbs)))"
    unfolding exporters_eta using emp [of cbs commitsHeader "map (commitRow rfc)"] by blast
  have 5: "content fs f = [] \<and> mbs \<noteq> [] \<longrightarrow>
            content (exportAll (writeMRsCSV rfc) mbs f fs) f =
              csvWrite mrsHeader @ concat (map csvWrite (concat (map (map (mrRow rfc)) mbs)))"
    unfolding exporters_eta using emp [of mbs mrsHeader "map (mrRow rfc)"] by blast
  have 6: "content fs f = [] \<and> nbs \<noteq> [] \<longrightarrow>
            content (exportAll (writeNotesCSV rfc) nbs f fs) f =
              csvWrite notesHeader
                @ concat (map csvWrite (concat (map (map (noteRow rfc)) nbs)))"
    unfolding exporters_eta using emp [of nbs notesHeader "map (noteRow rfc)"] by blast
  have 7: "content fs f \<noteq> [] \<longrightarrow>
            content (exportAll (writeCommitsCSV rfc) cbs f fs) f =
              content fs f @ concat (map csvWrite (concat (map (map (commitRow rfc)) cbs)))
          \<and> content (exportAll (writeMRsCSV rfc) mbs f fs) f =
              content fs f @ concat (map csvWrite (concat (map (map (mrRow rfc)) mbs)))
          \<and> content (exportAll (writeNotesCSV rfc) nbs f fs) f =
              content fs f @ concat (map csvWrite (concat (map (map (noteRow rfc)) nbs)))"
    unfolding exporters_eta
    using non [of commitsHeader "map (commitRow rfc)" cbs]
      non [of mrsHeader "map (mrRow rfc)" mbs] non [of notesHeader "map (noteRow rfc)" nbs]
    by blast
  from 1 2 3 4 5 6 7 commitRow_not_header [of rfc c] mrRow_not_header [of rfc m]
    noteRow_not_header [of rfc n]
  show ?thesis by (intro conjI)
qed

text \<open>The theorem on a fresh file, for one call and for three calls in a row.\<close>

theorem C6_header_once_witness:
  "writable emptyFS ''data/commits.csv''
   \<and> content emptyFS ''data/commits.csv'' = []
   \<and> [[exampleCommit], [], [exampleCommit]] \<noteq> []
   \<and> content (exportAll (writeCommitsCSV (\<lambda>t. [])) [[exampleCommit], [], [exampleCommit]]
        ''data/commits.csv'' emptyFS) ''data/commits.csv'' =
      csvWrite commitsHeader @ csvWrite (commitRow (\<lambda>t. []) exampleCommit)
        @ csvWrite (commitRow (\<lambda>t. []) exampleCommit)
   \<and> content (fst (writeCommitsCSV (\<lambda>t. []) [exampleCommit] ''data/commits.csv'' emptyFS))
        ''data/commits.csv'' =
      csvWrite commitsHeader @ csvWrite (commitRow (\<lambda>t. []) exampleCommit)"
proof -
  have w: "writable emptyFS ''data/commits.csv''"
    by (simp add: writable_def emptyFS_def)
  have e: "content emptyFS ''data/commits.csv'' = []"
    by (simp add: content_def emptyFS_def)
  from C6_header_once [OF w, of "\<lambda>t. []" "[exampleCommit]" "[]" "[]"
      "[[exampleCommit], [], [exampleCommit]]" "[]" "[]"] w e
  show ?thesis by simp
qed

section \<open>C9: extractPath\<close>

lemma TrimPrefix_slash: "TrimPrefix (CHR ''/'' # r) ''/'' = r"
  by (simp add: TrimPrefix_def)

text \<open>
  C9. When both URLs parse: if the hosts are equal, \<open>extractPath\<close> succeeds with the
  path of the input URL without its leading slash; if they differ, it fails with the
  host-mismatch error, and the URL loop of \<open>main\<close> stops there with the error, having
  asked the API to resolve none but the URLs before it.
\<close>

theorem C9_extractPath:
  assumes "urlParse inputURL = Some parsedInput" and "urlParse baseURL = Some parsedBase"
  shows "(Host parsedInput = Host parsedBase \<longrightarrow>
            extractPath urlParse inputURL baseURL = Inr (TrimPrefix (Path parsedInput) ''/'')
          \<and> (\<forall>r. Path parsedInput = CHR ''/'' # r \<longrightarrow>
                 extractPath urlParse inputURL baseURL = Inr r))
       \<and> (Host parsedInput \<noteq> Host parsedBase \<longrightarrow>
            extractPath urlParse inputURL baseURL =
              Inl (HostMismatch (Host parsedInput) (Host parsedBase))
          \<and> resolveURLs urlParse fetchProjects baseURL (inputURL # urls) calls allProjects =
              (calls, Inl (ExtractFailed (HostMismatch (Host parsedInput) (Host parsedBase)))))"
  using assms by (simp add: extractPath_def TrimPrefix_slash)

lemma simpleParse_examples:
  "simpleParse ''https://gitlab.example/group/proj''
     = Some \<lparr>Host = ''gitlab.example'', Path = ''/group/proj''\<rparr>"
  "simpleParse ''https://gitlab.example'' = Some \<lparr>Host = ''gitlab.example'', Path = []\<rparr>"
  "simpleParse ''https://other.example/group/proj''
     = Some \<lparr>Host = ''other.example'', Path = ''/group/proj''\<rparr>"
  by (simp_all add: simpleParse_def)

text \<open>The example of the claim, and the same path on another host.\<close>

theorem C9_extractPath_witness:
  "simpleParse ''https://gitlab.example/group/proj''
     = Some \<lparr>Host = ''gitlab.example'', Path = ''/group/proj''\<rparr>
   \<and> simpleParse ''https://gitlab.example'' = Some \<lparr>Host = ''gitlab.example'', Path = []\<rparr>
   \<and> extractPath simpleParse ''https://gitlab.example/group/proj'' ''https://gitlab.example''
       = Inr ''group/proj''
   \<and> simpleParse ''https://other.example/group/proj''
     = Some \<lparr>Host = ''other.example'', Path = ''/group/proj''\<rparr>
   \<and> extractPath simpleParse ''https://other.example/group/proj'' ''https://gitlab.example''
       = Inl (HostMismatch ''other.example'' ''gitlab.example'')
   \<and> resolveURLs simpleParse (\<lambda>path. Some [])
         ''https://gitlab.example''
         [''https://gitlab.example/group/proj'', ''https://other.example/group/proj'',
          ''https://gitlab.example/later''] [] []
       = ([''group/proj''], Inl (ExtractFailed (HostMismatch ''other.example'' ''gitlab.example'')))"
proof -
  note p = simpleParse_examples
  from C9_extractPath [where urlParse = simpleParse
        and inputURL = "''https://gitlab.example/group/proj''"
        and baseURL = "''https://gitlab.example''", OF p(1) p(2)]
    C9_extractPath [where urlParse = simpleParse
        and inputURL = "''https://other.example/group/proj''"
        and baseURL = "''https://gitlab.example''"
        and fetchProjects = "\<lambda>path. Some []" and urls = "[''https://gitlab.example/later'']"
        and calls = "[''group/proj'']" and allProjects = "[]", OF p(3) p(2)]
    p
  show ?thesis by (simp add: TrimPrefix_slash)
qed

section \<open>The files of a run: lemmas\<close>






lemma markProjectFetched_ok:
  assumes "\<not> open_fails fs (indexFile d)" "\<not> write_fails fs (indexFile d)"
  shows "snd (markProjectFetched d (p_ID p) (p_PathWithNamespace p) fs) = Done"
    and "content (fst (markProjectFetched d (p_ID p) (p_PathWithNamespace p) fs)) (indexFile d)
           = content fs (indexFile d) @ entryLine p"
    and "open_fails (fst (markProjectFetched d (p_ID p) (p_PathWithNamespace p) fs))
           = open_fails fs"
    and "write_fails (fst (markProjectFetched d (p_ID p) (p_PathWithNamespace p) fs))
           = write_fails fs"
  using assms
  by (simp_all add: markProjectFetched_def openAppend_def appendBytes_def content_def
      entryLine_def)


lemma filter_le: "length (filter P (filter Q xs)) \<le> length (filter P xs)"
  by (induction xs) auto


lemma emptyFS_flags:
  "\<not> open_fails emptyFS p" "\<not> write_fails emptyFS p" "\<not> stat_fails emptyFS p"
  "files emptyFS p = None" "content emptyFS p = []"
  by (simp_all add: emptyFS_def content_def)


section \<open>The checkpoint store: printing and scanning an identifier\<close>

lemma digit_nth:
  assumes "k < 10"
  shows "isDigit (''0123456789'' ! k)" "digitVal (''0123456789'' ! k) = int k"
    "plainChar (''0123456789'' ! k)"
proof -
  from assms have "k = 0 \<or> k = 1 \<or> k = 2 \<or> k = 3 \<or> k = 4 \<or> k = 5 \<or> k = 6 \<or> k = 7 \<or> k = 8 \<or> k = 9"
    by arith
  then show "isDigit (''0123456789'' ! k)" "digitVal (''0123456789'' ! k) = int k"
    "plainChar (''0123456789'' ! k)"
    by (auto simp: isDigit_def digitVal_def plainChar_def asciiSpace_def SP_def)
qed

lemma decimalValue_snoc: "decimalValue (xs @ [c]) = 10 * decimalValue xs + digitVal c"
  by (simp add: decimalValue_def)

lemma digits10_value: "decimalValue (digits10 n) = int n"
proof (induction n rule: digits10.induct)
  case (1 n)
  show ?case
  proof (cases "n < 10")
    case True
    then show ?thesis
      by (subst digits10.simps) (simp add: decimalValue_def digit_nth)
  next
    case False
    have m: "n mod 10 < 10" by simp
    have "decimalValue (digits10 n)
            = 10 * decimalValue (digits10 (n div 10)) + digitVal (''0123456789'' ! (n mod 10))"
      using False by (subst digits10.simps) (simp only: if_False decimalValue_snoc)
    also have "\<dots> = 10 * int (n div 10) + int (n mod 10)"
      using 1 False digit_nth(2) [OF m] by simp
    also have "\<dots> = int n" by (simp add: zdiv_int zmod_int)
    finally show ?thesis .
  qed
qed

lemma digits10_all_digits: "list_all isDigit (digits10 n)"
proof (induction n rule: digits10.induct)
  case (1 n)
  show ?case
  proof (cases "n < 10")
    case True
    then show ?thesis by (subst digits10.simps) (simp add: digit_nth)
  next
    case False
    have m: "n mod 10 < 10" by simp
    show ?thesis using 1 False digit_nth(1) [OF m] by (subst digits10.simps) simp
  qed
qed

section \<open>The checkpoint store: scanning an entry\<close>

lemma plain_facts:
  assumes "plainChar c"
  shows "spaceLen (c # r) = 0" "c \<noteq> LF" "c \<noteq> SP"
proof -
  from assms have a: "(of_char c :: nat) < 128" "\<not> asciiSpace c" by (simp_all add: plainChar_def)
  show "spaceLen (c # r) = 0" by (rule spaceLen_ascii [OF a])
  show "c \<noteq> LF" using a(2) by (auto simp: asciiSpace_def LF_def)
  show "c \<noteq> SP" using a(2) by (auto simp: asciiSpace_def)
qed

lemma dropSpaces_plain: "plainChar c \<Longrightarrow> dropSpaces (c # r) = c # r"
  by (subst dropSpaces.simps) (simp add: plain_facts)

lemma dropSpaces_Nil: "dropSpaces [] = []"
  by (subst dropSpaces.simps) simp

lemma dropSpaces_LF: "dropSpaces (LF # r) = LF # r"
  by (subst dropSpaces.simps) simp

lemma spaceLen_SP: "spaceLen (SP # r) = 1"
  by (simp add: spaceLen_def asciiSpace_def)

lemma SP_ne_LF: "SP \<noteq> LF"
  by (simp add: SP_def LF_def)

lemma dropSpaces_SP: "dropSpaces (SP # r) = dropSpaces r"
  by (subst dropSpaces.simps) (simp add: spaceLen_SP SP_ne_LF)

lemma spaceLen_LF: "spaceLen (LF # r) = 1"
  by (simp add: spaceLen_def asciiSpace_def LF_def)

lemma dropToken_plain: "list_all plainChar p \<Longrightarrow> dropToken (p @ LF # r) = LF # r"
proof (induction p)
  case Nil
  show ?case by (subst dropToken.simps) (simp add: spaceLen_LF)
next
  case (Cons c p)
  then have "plainChar c" by simp
  then have "dropToken ((c # p) @ LF # r) = dropToken (p @ LF # r)"
    by (subst dropToken.simps) (simp add: plain_facts)
  then show ?case using Cons by simp
qed

lemma digit_not_sign:
  assumes "isDigit c"
  shows "c \<noteq> CHR ''+''" "c \<noteq> CHR ''-''" "plainChar c"
  using assms by (auto simp: isDigit_def plainChar_def asciiSpace_def SP_def)

lemma minus_plain: "plainChar (CHR ''-'')" "\<not> isDigit SP" "SP \<noteq> CHR ''_''"
  by (simp_all add: plainChar_def asciiSpace_def SP_def isDigit_def)

lemma takeWhile_digits:
  assumes "list_all isDigit ds"
  shows "takeWhile (\<lambda>c. isDigit c \<or> c = CHR ''_'') (ds @ SP # r) = ds"
    and "dropWhile (\<lambda>c. isDigit c \<or> c = CHR ''_'') (ds @ SP # r) = SP # r"
  using assms by (induction ds) (simp_all add: minus_plain)

lemma sint_range: "- (2 ^ 63) \<le> sint (i :: int64)" "sint (i :: int64) < 2 ^ 63"
  using sint_ge [of i] sint_lt [of i] by simp_all

lemma scanInt_FormatInt: "scanInt (FormatInt i @ SP # r) = Some (i, SP # r)"
proof (cases "sint i < 0")
  case True
  define n where "n = nat (- sint i)"
  have f: "FormatInt i = CHR ''-'' # digits10 n" using True by (simp add: FormatInt_def n_def)
  have v: "- decimalValue (digits10 n) = sint i"
    using True by (simp add: digits10_value n_def)
  have sk: "SkipSpace (FormatInt i @ SP # r) = Some (CHR ''-'' # digits10 n @ SP # r)"
    by (simp add: f SkipSpace_def dropSpaces_plain minus_plain plain_facts)
  have p: "ParseInt64 True (digits10 n) = Some i"
    using sint_range [of i]
    by (simp add: ParseInt64_def digits10_nonempty digits10_all_digits v)
  show ?thesis
    by (simp add: scanInt_def sk takeWhile_digits digits10_all_digits p)
next
  case False
  define n where "n = nat (sint i)"
  have f: "FormatInt i = digits10 n" using False by (simp add: FormatInt_def n_def)
  obtain c ds where cd: "digits10 n = c # ds"
    using digits10_nonempty [of n] by (cases "digits10 n") auto
  have c: "isDigit c" using digits10_all_digits [of n] cd by simp
  have v: "decimalValue (digits10 n) = sint i"
    using False by (simp add: digits10_value n_def)
  have sk: "SkipSpace (FormatInt i @ SP # r) = Some (digits10 n @ SP # r)"
    using digit_not_sign [OF c]
    by (simp add: f cd SkipSpace_def dropSpaces_plain plain_facts)
  have p: "ParseInt64 False (digits10 n) = Some i"
    using sint_range [of i]
    by (simp add: ParseInt64_def digits10_nonempty digits10_all_digits v)
  have hd: "hd (digits10 n @ SP # r) = c" "digits10 n @ SP # r \<noteq> []" by (simp_all add: cd)
  show ?thesis
    using digit_not_sign [OF c] takeWhile_digits [OF digits10_all_digits, of n r] p
    by (simp add: scanInt_def sk hd)
qed

lemma Fscanf_entry:
  assumes "validPath path"
  shows "Fscanf (FormatInt i @ [SP] @ path @ [LF] @ rest) = Some (i, rest)"
proof -
  from assms obtain c p where cp: "path = c # p" "plainChar c" "list_all plainChar path"
    by (cases path) (auto simp: validPath_def)
  have 1: "scanInt (FormatInt i @ [SP] @ path @ [LF] @ rest) = Some (i, SP # path @ LF # rest)"
    using scanInt_FormatInt [of i "path @ LF # rest"] by simp
  have 2: "formatSpace (SP # path @ LF # rest) = Some (path @ LF # rest)"
    by (simp add: formatSpace_def spaceLen_SP dropSpaces_SP cp(1) dropSpaces_plain [OF cp(2)]
        SP_ne_LF)
  have 3: "scanString (path @ LF # rest) = Some (LF # rest)"
    using dropToken_plain [OF cp(3), of rest]
    by (simp add: scanString_def SkipSpace_def cp(1) dropSpaces_plain [OF cp(2)]
        plain_facts(2) [OF cp(2)])
  have 4: "formatNewline (LF # rest) = Some rest"
    by (simp add: formatNewline_def dropSpaces_LF)
  show ?thesis by (simp only: Fscanf_def 1 2 3 4 option.case prod.case)
qed

lemma scanLoop_None: "Fscanf inp = None \<Longrightarrow> scanLoop inp acc = acc"
  by (subst scanLoop.simps) simp

lemma scanLoop_entries:
  assumes "list_all (\<lambda>e. validPath (p_PathWithNamespace e)) es"
  shows "scanLoop (concat (map entryLine es) @ rest) acc = scanLoop rest (acc \<union> p_ID ` set es)"
  using assms
proof (induction es arbitrary: acc)
  case Nil
  then show ?case by simp
next
  case (Cons e es)
  then have v: "validPath (p_PathWithNamespace e)" by simp
  have "Fscanf (concat (map entryLine (e # es)) @ rest)
          = Some (p_ID e, concat (map entryLine es) @ rest)"
    using Fscanf_entry [OF v, of "p_ID e" "concat (map entryLine es) @ rest"]
    by (simp add: entryLine_def)
  then have "scanLoop (concat (map entryLine (e # es)) @ rest) acc
          = scanLoop (concat (map entryLine es) @ rest) (insert (p_ID e) acc)"
    by (subst scanLoop.simps) simp
  then show ?case using Cons by simp
qed

lemma Fscanf_Nil: "Fscanf [] = None"
  by (simp add: Fscanf_def scanInt_def SkipSpace_def dropSpaces_Nil)

section \<open>C7 and C8: the checkpoint store\<close>

lemma load_content:
  "\<not> open_fails fs (indexFile d) \<Longrightarrow>
     loadFetchedProjects d fs = scanLoop (content fs (indexFile d)) {}"
  by (simp add: loadFetchedProjects_def content_def scanLoop_None Fscanf_Nil
      split: option.splits)

lemma load_entries:
  assumes "\<not> open_fails fs (indexFile d)"
    and "content fs (indexFile d) = concat (map entryLine es) @ rest"
    and "list_all (\<lambda>e. validPath (p_PathWithNamespace e)) es"
    and "Fscanf rest = None"
  shows "loadFetchedProjects d fs = p_ID ` set es"
  using scanLoop_entries [OF assms(3), of rest "{}"] scanLoop_None [OF assms(4)]
  by (simp add: load_content [OF assms(1)] assms(2))

lemma validPath_example: "validPath ''a/b''"
  by (simp add: validPath_def plainChar_def asciiSpace_def SP_def)

text \<open>
  C7. On a store whose index file is missing, empty or made of entries written by
  \<open>markProjectFetched\<close> for project paths without white space, and which accepts the
  append: after \<open>markProjectFetched(dir, 7, "a/b")\<close> the set that \<open>loadFetchedProjects(dir)\<close>
  returns contains 7. For every identifier and path it is the identifiers of the
  earlier entries and the new one.
\<close>

theorem C7_checkpoint_roundtrip:
  assumes "\<not> open_fails fs (indexFile d)" and "\<not> write_fails fs (indexFile d)"
    and "content fs (indexFile d) = concat (map entryLine es)"
    and "list_all (\<lambda>e. validPath (p_PathWithNamespace e)) es"
  shows "7 \<in> loadFetchedProjects d (fst (markProjectFetched d 7 ''a/b'' fs))
       \<and> (validPath path \<longrightarrow>
            loadFetchedProjects d (fst (markProjectFetched d i path fs))
              = insert i (p_ID ` set es))"
proof -
  have gen: "loadFetchedProjects d (fst (markProjectFetched d j q fs)) = insert j (p_ID ` set es)"
    if q: "validPath q" for j q
  proof -
    define p where "p = \<lparr>p_ID = j, p_PathWithNamespace = q\<rparr>"
    define fs' where "fs' = fst (markProjectFetched d j q fs)"
    note m = markProjectFetched_ok [OF assms(1,2), of p]
    have o: "\<not> open_fails fs' (indexFile d)"
      using m(3) assms(1) by (simp add: fs'_def p_def)
    have c: "content fs' (indexFile d) = concat (map entryLine (es @ [p])) @ []"
      using m(2) assms(3) by (simp add: fs'_def p_def)
    have v: "list_all (\<lambda>e. validPath (p_PathWithNamespace e)) (es @ [p])"
      using assms(4) q by (simp add: p_def)
    from load_entries [OF o c v Fscanf_Nil] show ?thesis
      by (simp add: fs'_def p_def)
  qed
  from gen [OF validPath_example, of 7] gen [of path i] show ?thesis by simp
qed

text \<open>A fresh data folder, and a store that already holds the entry of project 5.\<close>

theorem C7_checkpoint_roundtrip_witness:
  "\<not> open_fails emptyFS (indexFile ''data'') \<and> \<not> write_fails emptyFS (indexFile ''data'')
   \<and> content emptyFS (indexFile ''data'') = concat (map entryLine [])
   \<and> list_all (\<lambda>e. validPath (p_PathWithNamespace e)) []
   \<and> 7 \<in> loadFetchedProjects ''data'' (fst (markProjectFetched ''data'' 7 ''a/b'' emptyFS))
   \<and> validPath ''grp/x''
   \<and> loadFetchedProjects ''data'' (fst (markProjectFetched ''data'' 5 ''grp/x'' emptyFS)) = {5}"
proof -
  have v: "validPath ''grp/x''"
    by (simp add: validPath_def plainChar_def asciiSpace_def SP_def)
  have c: "content emptyFS (indexFile ''data'') = concat (map entryLine [])"
    by (simp add: emptyFS_flags)
  have l: "list_all (\<lambda>e. validPath (p_PathWithNamespace e)) []" by simp
  from C7_checkpoint_roundtrip [OF emptyFS_flags(1,2) c l, of "''grp/x''" 5] v c
  show ?thesis by (simp add: emptyFS_flags)
qed

lemma Fscanf_xx: "Fscanf (''xx'' @ [LF]) = None"
proof -
  have p: "plainChar (CHR ''x'')" by (simp add: plainChar_def asciiSpace_def SP_def)
  have "scanInt (''xx'' @ [LF]) = None"
    by (simp add: scanInt_def SkipSpace_def dropSpaces_plain [OF p] plain_facts(2) [OF p]
        isDigit_def ParseInt64_def)
  then show ?thesis by (simp add: Fscanf_def)
qed

text \<open>
  C8, as the code has it. \<open>loadFetchedProjects\<close> has no error result. A file that is
  missing or cannot be opened gives the empty set. A file that starts with entries (lines
  \<open>id path\<close>, the path without white space) and goes on with bytes that do not scan as
  an entry gives the identifiers of those leading entries: the empty set only when the
  file does not start with an entry.
\<close>

theorem C8_load_leading_entries:
  "(open_fails fs (indexFile d) \<or> files fs (indexFile d) = None \<longrightarrow>
      loadFetchedProjects d fs = {})
   \<and> (\<not> open_fails fs (indexFile d)
        \<and> files fs (indexFile d) = Some (concat (map entryLine es) @ rest)
        \<and> list_all (\<lambda>e. validPath (p_PathWithNamespace e)) es
        \<and> Fscanf rest = None \<longrightarrow>
      loadFetchedProjects d fs = p_ID ` set es)"
proof -
  have a: "open_fails fs (indexFile d) \<or> files fs (indexFile d) = None \<longrightarrow>
      loadFetchedProjects d fs = {}"
    by (auto simp: loadFetchedProjects_def)
  have b: "loadFetchedProjects d fs = p_ID ` set es"
    if "\<not> open_fails fs (indexFile d)"
      "files fs (indexFile d) = Some (concat (map entryLine es) @ rest)"
      "list_all (\<lambda>e. validPath (p_PathWithNamespace e)) es" "Fscanf rest = None"
    using load_entries [OF that(1) _ that(3,4)] that(2) by (simp add: content_def)
  from a b show ?thesis by blast
qed

lemma malformed_facts:
  "\<not> open_fails malformedIndexFS (indexFile ''data'')"
  "files malformedIndexFS (indexFile ''data'')
     = Some (concat (map entryLine [\<lparr>p_ID = 5, p_PathWithNamespace = ''a''\<rparr>]) @ ''xx'' @ [LF])"
  "list_all (\<lambda>e. validPath (p_PathWithNamespace e)) [\<lparr>p_ID = 5, p_PathWithNamespace = ''a''\<rparr>]"
proof -
  have "FormatInt 5 = ''5''" by (simp add: FormatInt_def digits10.simps)
  then show "files malformedIndexFS (indexFile ''data'')
     = Some (concat (map entryLine [\<lparr>p_ID = 5, p_PathWithNamespace = ''a''\<rparr>]) @ ''xx'' @ [LF])"
    by (simp add: malformedIndexFS_def entryLine_def SP_def)
qed (simp_all add: malformedIndexFS_def emptyFS_def validPath_def plainChar_def asciiSpace_def
      SP_def)

text \<open>A missing file, and the file whose second line is malformed.\<close>

theorem C8_load_leading_entries_witness:
  "files emptyFS (indexFile ''data'') = None
   \<and> loadFetchedProjects ''data'' emptyFS = {}
   \<and> \<not> open_fails malformedIndexFS (indexFile ''data'')
   \<and> files malformedIndexFS (indexFile ''data'')
     = Some (concat (map entryLine [\<lparr>p_ID = 5, p_PathWithNamespace = ''a''\<rparr>]) @ ''xx'' @ [LF])
   \<and> list_all (\<lambda>e. validPath (p_PathWithNamespace e)) [\<lparr>p_ID = 5, p_PathWithNamespace = ''a''\<rparr>]
   \<and> Fscanf (''xx'' @ [LF]) = None
   \<and> loadFetchedProjects ''data'' malformedIndexFS = {5}"
  using C8_load_leading_entries [of emptyFS "''data''" "[]" "[]"]
    C8_load_leading_entries [of malformedIndexFS "''data''"
      "[\<lparr>p_ID = 5, p_PathWithNamespace = ''a''\<rparr>]" "''xx'' @ [LF]"]
    malformed_facts Fscanf_xx emptyFS_flags(4) [of "indexFile ''data''"]
  by simp

text \<open>
  C8 as stated fails: on an index file whose first line is an entry and whose second
  line is malformed, the set returned is not empty.
\<close>

theorem C8_counterexample:
  "files malformedIndexFS (indexFile ''data'') = Some (''5 a'' @ [LF] @ ''xx'' @ [LF])
   \<and> Fscanf (''xx'' @ [LF]) = None
   \<and> loadFetchedProjects ''data'' malformedIndexFS = {5}"
proof -
  have l: "loadFetchedProjects ''data'' malformedIndexFS = {5}"
    using load_entries [OF malformed_facts(1) _ malformed_facts(3) Fscanf_xx] malformed_facts(2)
    by (simp add: content_def)
  have f: "files malformedIndexFS (indexFile ''data'') = Some (''5 a'' @ [LF] @ ''xx'' @ [LF])"
    by (simp add: malformedIndexFS_def)
  from f Fscanf_xx l show ?thesis by (intro conjI)
qed

section \<open>The paginated fetchers: invariant, progress and termination\<close>

lemma sum_list_update:
  fixes f :: "'b \<Rightarrow> 'c::comm_monoid_add"
  shows "i < length ws \<Longrightarrow> sum_list (map f (ws[i := w])) + f (ws ! i) = sum_list (map f ws) + f w"
proof (induction ws arbitrary: i)
  case Nil
  then show ?case by simp
next
  case (Cons a ws)
  show ?case
  proof (cases i)
    case 0
    then show ?thesis by (simp add: ac_simps)
  next
    case (Suc j)
    then have "j < length ws" using Cons.prems by simp
    from Cons.IH [OF this] show ?thesis using Suc
      by (simp add: ac_simps)
  qed
qed

lemma set_update_cases:
  "x \<in> set (ws[i := w]) \<Longrightarrow> x = w \<or> x \<in> set ws"
  using set_update_subset_insert [of ws i w] by auto

lemma all_returned_nth:
  "list_all (\<lambda>w. w = Returned) ws \<Longrightarrow> i < length ws \<Longrightarrow> ws ! i = Returned"
  by (simp add: list_all_length)

lemma distinct_of_part:
  assumes "mset xs + Y = mset zs" and "distinct zs"
  shows "distinct xs"
proof -
  have le: "count (mset xs) a \<le> 1" for a
  proof -
    have "count (mset xs) a \<le> count (mset zs) a"
      using assms(1) by (metis count_union le_add1)
    also have "\<dots> \<le> 1" using assms(2) by (simp add: distinct_count_atmost_1)
    finally show ?thesis .
  qed
  show ?thesis
    unfolding distinct_count_atmost_1
  proof
    fix a
    show "count (mset xs) a = (if a \<in> set xs then 1 else 0)"
      using le [of a] by (cases "a \<in> set xs") (auto simp: count_eq_zero_iff dest!: count_inI order_antisym)
  qed
qed

lemma set_of_part:
  assumes "mset xs + Y = mset zs"
  shows "set xs \<subseteq> set zs"
  using assms by (metis mset_subset_eq_add_left set_mset_mono set_mset_mset)

lemma fetchInvD:
  assumes "fetchInv fetchPage P N s"
  shows "length (workers s) = N"
    and "1 \<le> nextPage s"
    and "mset (allRecords s) + mset (concat (results s))
          + sum_list (map (inflight fetchPage) (workers s))
          + mset (concat (map fetchPage [nextPage s..<P + 1]))
          = mset (concat (map fetchPage [1..<P + 1]))"
    and "mset (requested s) + sum_list (map claimed (workers s)) = mset [1..<nextPage s]"
    and "stop s \<Longrightarrow> P < nextPage s"
    and "AtStore \<in> set (workers s) \<Longrightarrow> P < nextPage s"
    and "Returned \<in> set (workers s) \<Longrightarrow> stop s"
    and "closed s \<Longrightarrow> list_all (\<lambda>w. w = Returned) (workers s)"
    and "returned s \<Longrightarrow> closed s \<and> results s = []"
    and "nextPage s \<le> P + 1 + sum_list (map (spent P) (workers s))"
    and "signals s \<le> sum_list (map hasReturned (workers s))"
    and "stop s \<longleftrightarrow> 0 < signals s"
  using assms unfolding fetchInv_def by blast+

lemma fetchInvI:
  assumes "length (workers s) = N"
    and "1 \<le> nextPage s"
    and "mset (allRecords s) + mset (concat (results s))
          + sum_list (map (inflight fetchPage) (workers s))
          + mset (concat (map fetchPage [nextPage s..<P + 1]))
          = mset (concat (map fetchPage [1..<P + 1]))"
    and "mset (requested s) + sum_list (map claimed (workers s)) = mset [1..<nextPage s]"
    and "stop s \<Longrightarrow> P < nextPage s"
    and "AtStore \<in> set (workers s) \<Longrightarrow> P < nextPage s"
    and "Returned \<in> set (workers s) \<Longrightarrow> stop s"
    and "closed s \<Longrightarrow> list_all (\<lambda>w. w = Returned) (workers s)"
    and "returned s \<Longrightarrow> closed s \<and> results s = []"
    and "nextPage s \<le> P + 1 + sum_list (map (spent P) (workers s))"
    and "signals s \<le> sum_list (map hasReturned (workers s))"
    and "stop s \<longleftrightarrow> 0 < signals s"
  shows "fetchInv fetchPage P N s"
  using assms unfolding fetchInv_def by blast

lemma not_closed_if_active:
  assumes "fetchInv fetchPage P N s" "i < length (workers s)" "workers s ! i \<noteq> Returned"
  shows "\<not> closed s" "\<not> returned s"
proof -
  show c: "\<not> closed s"
    using fetchInvD(8) [OF assms(1)] all_returned_nth [of "workers s" i] assms(2,3) by blast
  show "\<not> returned s" using c fetchInvD(9) [OF assms(1)] by blast
qed

lemma upt_pages:
  assumes "hasPages fetchPage P"
  shows "mset (fetchPage n) + mset (concat (map fetchPage [Suc n..<P + 1]))
           = mset (concat (map fetchPage [n..<P + 1]))"
proof (cases "n \<le> P")
  case True
  then have "[n..<P + 1] = n # [Suc n..<P + 1]" by (simp add: upt_conv_Cons)
  then show ?thesis by simp
next
  case False
  then have "fetchPage n = []" using assms unfolding hasPages_def by blast
  then show ?thesis using False by simp
qed

lemma mem_sum_claimed: "AtFetch p \<in> set ws \<Longrightarrow> p \<in># sum_list (map claimed ws)"
  by (induction ws) auto

lemma claimed_page:
  assumes "fetchInv fetchPage P N s" "i < length (workers s)" "workers s ! i = AtFetch page"
  shows "1 \<le> page" "page < nextPage s"
proof -
  have "AtFetch page \<in> set (workers s)" using assms(2,3) by (metis nth_mem)
  then have "page \<in># sum_list (map claimed (workers s))"
    by (rule mem_sum_claimed)
  then have "page \<in># mset [1..<nextPage s]"
    unfolding fetchInvD(4) [OF assms(1), symmetric] by simp
  then have "page \<in> set [1..<nextPage s]" by (simp only: set_mset_mset)
  then show "1 \<le> page" "page < nextPage s" by simp_all
qed

lemma page_kind:
  assumes "hasPages fetchPage P" "1 \<le> page"
  shows "fetchPage page = [] \<longleftrightarrow> P < page"
  using assms unfolding hasPages_def by (metis not_le)

lemma step_load:
  assumes inv: "fetchInv fetchPage P N s" and i: "i < length (workers s)"
    and w: "workers s ! i = AtLoad"
  shows "fetchInv fetchPage P N
           (s\<lparr>workers := (workers s)[i := (if stop s then Returned else AtClaim)]\<rparr>)"
proof -
  define w' :: "'a wstate" where "w' = (if stop s then Returned else AtClaim)"
  note D = fetchInvD [OF inv]
  have nc: "\<not> closed s" "\<not> returned s"
    using not_closed_if_active [OF inv i] w by simp_all
  have u1: "sum_list (map (inflight fetchPage) ((workers s)[i := w']))
              = sum_list (map (inflight fetchPage) (workers s))"
    using sum_list_update [OF i, of "inflight fetchPage" w'] w by (simp add: w'_def)
  have u2: "sum_list (map claimed ((workers s)[i := w'])) = sum_list (map claimed (workers s))"
    using sum_list_update [OF i, of claimed w'] w by (simp add: w'_def)
  have u3: "sum_list (map (spent P) (workers s)) \<le> sum_list (map (spent P) ((workers s)[i := w']))"
    using sum_list_update [OF i, of "spent P" w'] w by simp
  have u4: "sum_list (map hasReturned (workers s))
              \<le> sum_list (map hasReturned ((workers s)[i := w']))"
    using sum_list_update [OF i, of hasReturned w'] w by simp
  have m: "x \<in> set ((workers s)[i := w']) \<Longrightarrow> x = w' \<or> x \<in> set (workers s)" for x
    by (rule set_update_cases)
  show ?thesis
    unfolding w'_def [symmetric]
  proof (rule fetchInvI)
    show "AtStore \<in> set (workers (s\<lparr>workers := (workers s)[i := w']\<rparr>)) \<Longrightarrow>
            P < nextPage (s\<lparr>workers := (workers s)[i := w']\<rparr>)"
      using m [of AtStore] D(6) by (auto simp: w'_def split: if_splits)
    show "Returned \<in> set (workers (s\<lparr>workers := (workers s)[i := w']\<rparr>)) \<Longrightarrow>
            stop (s\<lparr>workers := (workers s)[i := w']\<rparr>)"
      using m [of Returned] D(7) by (auto simp: w'_def split: if_splits)
  qed (use D nc u1 u2 u3 u4 w in \<open>simp_all del: upt_Suc\<close>)
qed

lemma step_claim:
  assumes hp: "hasPages fetchPage P"
    and inv: "fetchInv fetchPage P N s" and i: "i < length (workers s)"
    and w: "workers s ! i = AtClaim"
  shows "fetchInv fetchPage P N
           (s\<lparr>nextPage := nextPage s + 1, workers := (workers s)[i := AtFetch (nextPage s)]\<rparr>)"
proof -
  define w' :: "'a wstate" where "w' = AtFetch (nextPage s)"
  note D = fetchInvD [OF inv]
  have nc: "\<not> closed s" "\<not> returned s"
    using not_closed_if_active [OF inv i] w by simp_all
  have u1: "sum_list (map (inflight fetchPage) ((workers s)[i := w']))
              = sum_list (map (inflight fetchPage) (workers s)) + mset (fetchPage (nextPage s))"
    using sum_list_update [OF i, of "inflight fetchPage" w'] w by (simp add: w'_def)
  have u2: "sum_list (map claimed ((workers s)[i := w']))
              = sum_list (map claimed (workers s)) + {#nextPage s#}"
    using sum_list_update [OF i, of claimed w'] w by (simp add: w'_def)
  have u3: "sum_list (map (spent P) ((workers s)[i := w']))
              = sum_list (map (spent P) (workers s)) + (if P < nextPage s then 1 else 0)"
    using sum_list_update [OF i, of "spent P" w'] w by (simp add: w'_def)
  have u4: "sum_list (map hasReturned ((workers s)[i := w']))
              = sum_list (map hasReturned (workers s))"
    using sum_list_update [OF i, of hasReturned w'] w by (simp add: w'_def)
  have m: "x \<in> set ((workers s)[i := w']) \<Longrightarrow> x = w' \<or> x \<in> set (workers s)" for x
    by (rule set_update_cases)
  have up: "mset [1..<Suc (nextPage s)] = mset [1..<nextPage s] + {#nextPage s#}"
    using D(2) by simp
  show ?thesis
    unfolding w'_def [symmetric]
  proof (rule fetchInvI)
    let ?s' = "s\<lparr>nextPage := nextPage s + 1, workers := (workers s)[i := w']\<rparr>"
    show "mset (allRecords ?s') + mset (concat (results ?s'))
          + sum_list (map (inflight fetchPage) (workers ?s'))
          + mset (concat (map fetchPage [nextPage ?s'..<P + 1]))
          = mset (concat (map fetchPage [1..<P + 1]))"
      using D(3) [unfolded upt_pages [OF hp, of "nextPage s", symmetric]]
      by (simp add: u1 ac_simps del: upt_Suc)
    show "mset (requested ?s') + sum_list (map claimed (workers ?s')) = mset [1..<nextPage ?s']"
      using D(4) up by (simp add: u2)
    show "AtStore \<in> set (workers ?s') \<Longrightarrow> P < nextPage ?s'"
      using m [of AtStore] D(6) by (auto simp: w'_def)
    show "Returned \<in> set (workers ?s') \<Longrightarrow> stop ?s'"
      using m [of Returned] D(7) by (auto simp: w'_def)
    show "stop ?s' \<Longrightarrow> P < nextPage ?s'" using D(5) by auto
    show "nextPage ?s' \<le> P + 1 + sum_list (map (spent P) (workers ?s'))"
      using D(10) by (simp add: u3)
  qed (use D nc u4 in \<open>simp_all del: upt_Suc\<close>)
qed

lemma step_fetch:
  assumes hp: "hasPages fetchPage P"
    and inv: "fetchInv fetchPage P N s" and i: "i < length (workers s)"
    and w: "workers s ! i = AtFetch page"
  shows "fetchInv fetchPage P N
           (s\<lparr>requested := requested s @ [page],
              workers := (workers s)[i := (if length (fetchPage page) = 0 then AtStore
                                           else AtSend (fetchPage page))]\<rparr>)"
proof -
  define w' :: "'a wstate" where
    "w' = (if length (fetchPage page) = 0 then AtStore else AtSend (fetchPage page))"
  note D = fetchInvD [OF inv]
  have nc: "\<not> closed s" "\<not> returned s"
    using not_closed_if_active [OF inv i] w by simp_all
  note pg = claimed_page [OF inv i w]
  note kind = page_kind [OF hp pg(1)]
  have u1: "sum_list (map (inflight fetchPage) ((workers s)[i := w']))
              = sum_list (map (inflight fetchPage) (workers s))"
    using sum_list_update [OF i, of "inflight fetchPage" w'] w
    by (cases "fetchPage page = []") (simp_all add: w'_def)
  have u2: "sum_list (map claimed ((workers s)[i := w'])) + {#page#}
              = sum_list (map claimed (workers s))"
    using sum_list_update [OF i, of claimed w'] w
    by (cases "fetchPage page = []") (simp_all add: w'_def)
  have u3: "sum_list (map (spent P) ((workers s)[i := w']))
              = sum_list (map (spent P) (workers s))"
    using sum_list_update [OF i, of "spent P" w'] w kind
    by (cases "fetchPage page = []") (simp_all add: w'_def)
  have u4: "sum_list (map hasReturned ((workers s)[i := w']))
              = sum_list (map hasReturned (workers s))"
    using sum_list_update [OF i, of hasReturned w'] w
    by (cases "fetchPage page = []") (simp_all add: w'_def)
  have m: "x \<in> set ((workers s)[i := w']) \<Longrightarrow> x = w' \<or> x \<in> set (workers s)" for x
    by (rule set_update_cases)
  show ?thesis
    unfolding w'_def [symmetric]
  proof (rule fetchInvI)
    let ?s' = "s\<lparr>requested := requested s @ [page], workers := (workers s)[i := w']\<rparr>"
    show "mset (requested ?s') + sum_list (map claimed (workers ?s')) = mset [1..<nextPage ?s']"
      using D(4) [unfolded u2 [symmetric]] by (simp add: ac_simps)
    show "AtStore \<in> set (workers ?s') \<Longrightarrow> P < nextPage ?s'"
      using m [of AtStore] D(6) kind pg(2) by (auto simp: w'_def split: if_splits)
    show "Returned \<in> set (workers ?s') \<Longrightarrow> stop ?s'"
      using m [of Returned] D(7) by (auto simp: w'_def split: if_splits)
  qed (use D nc u1 u3 u4 in \<open>simp_all del: upt_Suc\<close>)
qed

lemma step_store:
  assumes inv: "fetchInv fetchPage P N s" and i: "i < length (workers s)"
    and w: "workers s ! i = AtStore"
  shows "fetchInv fetchPage P N
           (s\<lparr>stop := True, signals := signals s + 1, workers := (workers s)[i := Returned]\<rparr>)"
proof -
  note D = fetchInvD [OF inv]
  have nc: "\<not> closed s" "\<not> returned s"
    using not_closed_if_active [OF inv i] w by simp_all
  have st: "AtStore \<in> set (workers s)" using i w by (metis nth_mem)
  have u1: "sum_list (map (inflight fetchPage) ((workers s)[i := Returned]))
              = sum_list (map (inflight fetchPage) (workers s))"
    using sum_list_update [OF i, of "inflight fetchPage" Returned] w by simp
  have u2: "sum_list (map claimed ((workers s)[i := Returned]))
              = sum_list (map claimed (workers s))"
    using sum_list_update [OF i, of claimed Returned] w by simp
  have u3: "sum_list (map (spent P) ((workers s)[i := Returned]))
              = sum_list (map (spent P) (workers s))"
    using sum_list_update [OF i, of "spent P" Returned] w by simp
  have u4: "sum_list (map hasReturned ((workers s)[i := Returned]))
              = sum_list (map hasReturned (workers s)) + 1"
    using sum_list_update [OF i, of hasReturned Returned] w by simp
  have m: "x \<in> set ((workers s)[i := Returned]) \<Longrightarrow> x = Returned \<or> x \<in> set (workers s)" for x
    by (rule set_update_cases)
  show ?thesis
  proof (rule fetchInvI)
    let ?s' = "s\<lparr>stop := True, signals := signals s + 1,
                  workers := (workers s)[i := Returned]\<rparr>"
    show "AtStore \<in> set (workers ?s') \<Longrightarrow> P < nextPage ?s'"
      using D(6) [OF st] by simp
    show "stop ?s' \<Longrightarrow> P < nextPage ?s'" using D(6) [OF st] by simp
  qed (use D nc u1 u2 u3 u4 w in \<open>simp_all del: upt_Suc\<close>)
qed

lemma step_send:
  assumes inv: "fetchInv fetchPage P N s" and i: "i < length (workers s)"
    and w: "workers s ! i = AtSend page"
  shows "fetchInv fetchPage P N
           (s\<lparr>results := results s @ [page], workers := (workers s)[i := AtLoad]\<rparr>)"
proof -
  note D = fetchInvD [OF inv]
  have nc: "\<not> closed s" "\<not> returned s"
    using not_closed_if_active [OF inv i] w by simp_all
  have u1: "sum_list (map (inflight fetchPage) ((workers s)[i := AtLoad])) + mset page
              = sum_list (map (inflight fetchPage) (workers s))"
    using sum_list_update [OF i, of "inflight fetchPage" AtLoad] w by simp
  have u2: "sum_list (map claimed ((workers s)[i := AtLoad]))
              = sum_list (map claimed (workers s))"
    using sum_list_update [OF i, of claimed AtLoad] w by simp
  have u3: "sum_list (map (spent P) ((workers s)[i := AtLoad]))
              = sum_list (map (spent P) (workers s))"
    using sum_list_update [OF i, of "spent P" AtLoad] w by simp
  have u4: "sum_list (map hasReturned ((workers s)[i := AtLoad]))
              = sum_list (map hasReturned (workers s))"
    using sum_list_update [OF i, of hasReturned AtLoad] w by simp
  have m: "x \<in> set ((workers s)[i := AtLoad]) \<Longrightarrow> x = AtLoad \<or> x \<in> set (workers s)" for x
    by (rule set_update_cases)
  show ?thesis
  proof (rule fetchInvI)
    let ?s' = "s\<lparr>results := results s @ [page], workers := (workers s)[i := AtLoad]\<rparr>"
    show "mset (allRecords ?s') + mset (concat (results ?s'))
          + sum_list (map (inflight fetchPage) (workers ?s'))
          + mset (concat (map fetchPage [nextPage ?s'..<P + 1]))
          = mset (concat (map fetchPage [1..<P + 1]))"
      using D(3) [unfolded u1 [symmetric]] by (simp add: ac_simps del: upt_Suc)
    show "AtStore \<in> set (workers ?s') \<Longrightarrow> P < nextPage ?s'"
      using m [of AtStore] D(6) by auto
    show "Returned \<in> set (workers ?s') \<Longrightarrow> stop ?s'"
      using m [of Returned] D(7) by auto
  qed (use D nc u2 u3 u4 in \<open>simp_all del: upt_Suc\<close>)
qed

lemma step_closer:
  assumes inv: "fetchInv fetchPage P N s"
    and all: "list_all (\<lambda>w. w = Returned) (workers s)"
  shows "fetchInv fetchPage P N (s\<lparr>closed := True\<rparr>)"
  by (rule fetchInvI) (use fetchInvD [OF inv] all in \<open>simp_all del: upt_Suc\<close>)

lemma step_receive:
  assumes inv: "fetchInv fetchPage P N s" and r: "results s = page # rest"
    and nr: "\<not> returned s"
  shows "fetchInv fetchPage P N (s\<lparr>results := rest, allRecords := allRecords s @ page\<rparr>)"
  by (rule fetchInvI) (use fetchInvD [OF inv] r nr in \<open>simp_all add: ac_simps del: upt_Suc\<close>)

lemma step_return:
  assumes inv: "fetchInv fetchPage P N s" and r: "results s = []" and c: "closed s"
  shows "fetchInv fetchPage P N (s\<lparr>returned := True\<rparr>)"
  by (rule fetchInvI) (use fetchInvD [OF inv] r c in \<open>simp_all del: upt_Suc\<close>)

lemma fetchStep_inv:
  assumes hp: "hasPages fetchPage P" and inv: "fetchInv fetchPage P N s"
    and st: "fetchStep fetchPage a s = Some s'"
  shows "fetchInv fetchPage P N s'"
proof (cases a)
  case (Worker i)
  with st have ws: "workerStep fetchPage i s = Some s'" by (simp add: fetchStep_def)
  then have i: "i < length (workers s)" by (auto simp: workerStep_def split: if_splits)
  show ?thesis
  proof (cases "workers s ! i")
    case AtLoad
    with ws i step_load [OF inv i AtLoad] show ?thesis by (auto simp: workerStep_def)
  next
    case AtClaim
    with ws i step_claim [OF hp inv i AtClaim] show ?thesis by (auto simp: workerStep_def)
  next
    case (AtFetch page)
    with ws i step_fetch [OF hp inv i AtFetch] show ?thesis by (auto simp: workerStep_def)
  next
    case AtStore
    with ws i step_store [OF inv i AtStore] show ?thesis by (auto simp: workerStep_def)
  next
    case (AtSend page)
    with ws i step_send [OF inv i AtSend] show ?thesis
      by (auto simp: workerStep_def split: if_splits)
  next
    case Returned
    with ws i show ?thesis by (auto simp: workerStep_def)
  qed
next
  case Closer
  with st step_closer [OF inv] show ?thesis by (auto simp: fetchStep_def split: if_splits)
next
  case Caller
  show ?thesis
  proof (cases "results s")
    case Nil
    with st Caller step_return [OF inv Nil] show ?thesis
      by (auto simp: fetchStep_def split: if_splits)
  next
    case (Cons page rest)
    with st Caller step_receive [OF inv Cons] show ?thesis
      by (auto simp: fetchStep_def split: if_splits)
  qed
qed

lemma sum_list_replicate_const: "sum_list (replicate n (k::nat)) = n * k"
  by (induction n) simp_all

lemma sum_list_replicate_empty: "sum_list (replicate n {#}) = {#}"
  by (induction n) simp_all

lemma fetchInv_init: "fetchInv fetchPage P N (fetchInit N)"
  by (rule fetchInvI)
     (simp_all add: fetchInit_def sum_list_replicate_const sum_list_replicate_empty
        del: upt_Suc)

lemma fetchRun_inv:
  assumes hp: "hasPages fetchPage P"
  shows "fetchInv fetchPage P N s \<Longrightarrow> fetchRun fetchPage sched s = Some s'
           \<Longrightarrow> fetchInv fetchPage P N s'"
proof (induction sched arbitrary: s)
  case Nil
  then show ?case by simp
next
  case (Cons a sched)
  from Cons.prems(2) obtain s1 where s1: "fetchStep fetchPage a s = Some s1"
    and r: "fetchRun fetchPage sched s1 = Some s'"
    by (auto split: option.splits)
  from Cons.IH [OF fetchStep_inv [OF hp Cons.prems(1) s1] r] show ?case .
qed

lemma fetchStep_measure:
  assumes hp: "hasPages fetchPage P" and st: "fetchStep fetchPage a s = Some s'"
  shows "fetchMeasure fetchPage P s' < fetchMeasure fetchPage P s"
proof (cases a)
  case (Worker i)
  with st have ws: "workerStep fetchPage i s = Some s'" by (simp add: fetchStep_def)
  then have i: "i < length (workers s)" by (auto simp: workerStep_def split: if_splits)
  note u = sum_list_update [OF i, of "weight fetchPage"]
  show ?thesis
  proof (cases "workers s ! i")
    case AtLoad
    with ws i u [of "if stop s then Returned else AtClaim"] show ?thesis
      by (auto simp: workerStep_def fetchMeasure_def)
  next
    case AtClaim
    have "fetchPage (nextPage s) \<noteq> [] \<Longrightarrow> nextPage s \<le> P"
      using hp unfolding hasPages_def by blast
    with AtClaim ws i u [of "AtFetch (nextPage s)"] show ?thesis
      by (auto simp: workerStep_def fetchMeasure_def split: if_splits)
  next
    case (AtFetch page)
    with ws i u [of "if length (fetchPage page) = 0 then AtStore else AtSend (fetchPage page)"]
    show ?thesis
      by (cases "fetchPage page = []") (auto simp: workerStep_def fetchMeasure_def)
  next
    case AtStore
    with ws i u [of Returned] show ?thesis by (auto simp: workerStep_def fetchMeasure_def)
  next
    case (AtSend page)
    with ws i u [of AtLoad] show ?thesis
      by (auto simp: workerStep_def fetchMeasure_def split: if_splits)
  next
    case Returned
    with ws i show ?thesis by (auto simp: workerStep_def)
  qed
next
  case Closer
  with st show ?thesis by (auto simp: fetchStep_def fetchMeasure_def split: if_splits)
next
  case Caller
  with st show ?thesis
    by (cases "results s") (auto simp: fetchStep_def fetchMeasure_def split: if_splits)
qed

lemma fetchRun_measure:
  assumes hp: "hasPages fetchPage P"
  shows "fetchRun fetchPage sched s = Some s'
           \<Longrightarrow> length sched + fetchMeasure fetchPage P s' \<le> fetchMeasure fetchPage P s"
proof (induction sched arbitrary: s)
  case Nil
  then show ?case by simp
next
  case (Cons a sched)
  from Cons.prems obtain s1 where s1: "fetchStep fetchPage a s = Some s1"
    and r: "fetchRun fetchPage sched s1 = Some s'"
    by (auto split: option.splits)
  from Cons.IH [OF r] fetchStep_measure [OF hp s1] show ?case by simp
qed

lemma fetchMeasure_init: "fetchMeasure fetchPage P (fetchInit N) = 5 * P + 4 * N + 2"
  by (simp add: fetchMeasure_def fetchInit_def sum_list_replicate_const)

lemma fetch_progress:
  assumes "\<not> returned s"
  shows "\<exists>a. fetchStep fetchPage a s \<noteq> None"
proof (cases "\<exists>i < length (workers s). workers s ! i \<noteq> Returned
                \<and> (\<forall>page. workers s ! i \<noteq> AtSend page)")
  case True
  then obtain i where i: "i < length (workers s)" "workers s ! i \<noteq> Returned"
    "\<forall>page. workers s ! i \<noteq> AtSend page" by blast
  then have "fetchStep fetchPage (Worker i) s \<noteq> None"
    by (cases "workers s ! i") (auto simp: fetchStep_def workerStep_def)
  then show ?thesis by blast
next
  case False
  then have blocked: "\<And>i. i < length (workers s) \<Longrightarrow>
      workers s ! i = Returned \<or> (\<exists>page. workers s ! i = AtSend page)" by blast
  show ?thesis
  proof (cases "results s")
    case (Cons page rest)
    then have "fetchStep fetchPage Caller s \<noteq> None" using assms by (simp add: fetchStep_def)
    then show ?thesis by blast
  next
    case Nil
    show ?thesis
    proof (cases "\<exists>i < length (workers s). \<exists>page. workers s ! i = AtSend page")
      case True
      then obtain i page where i: "i < length (workers s)" "workers s ! i = AtSend page" by blast
      then have "fetchStep fetchPage (Worker i) s \<noteq> None"
        using Nil by (auto simp: fetchStep_def workerStep_def)
      then show ?thesis by blast
    next
      case False
      with blocked have "list_all (\<lambda>w. w = Returned) (workers s)"
        by (auto simp: list_all_length)
      then have "fetchStep fetchPage Closer s \<noteq> None \<or> fetchStep fetchPage Caller s \<noteq> None"
        using Nil assms by (cases "closed s") (simp_all add: fetchStep_def)
      then show ?thesis by blast
    qed
  qed
qed

section \<open>C2: the stop flag of the paginated fetchers\<close>

lemma all_returned_sums:
  assumes "list_all (\<lambda>w. w = Returned) ws"
  shows "sum_list (map (inflight fetchPage) ws) = {#}" "sum_list (map claimed ws) = {#}"
  using assms by (induction ws) simp_all

lemma spent_le_length: "sum_list (map (spent P) ws) \<le> length ws"
proof (induction ws)
  case Nil
  then show ?case by simp
next
  case (Cons w ws)
  have "spent P w \<le> 1" by (cases w) simp_all
  with Cons show ?case by simp
qed

lemma hasReturned_le_length: "sum_list (map hasReturned ws) \<le> length ws"
proof (induction ws)
  case Nil
  then show ?case by simp
next
  case (Cons w ws)
  have "hasReturned w \<le> 1" by (cases w) simp_all
  with Cons show ?case by simp
qed

lemma returned_facts:
  assumes inv: "fetchInv fetchPage P N s" and n: "1 \<le> N" and r: "returned s"
  shows "stop s" "P < nextPage s" "mset (allRecords s) = mset (concat (map fetchPage [1..<P + 1]))"
    "mset (requested s) = mset [1..<nextPage s]"
proof -
  note D = fetchInvD [OF inv]
  from D(9) [OF r] have c: "closed s" and e: "results s = []" by simp_all
  from D(8) [OF c] have all: "list_all (\<lambda>w. w = Returned) (workers s)" .
  have "workers s \<noteq> []" using D(1) n by auto
  then obtain w ws where "workers s = w # ws" by (cases "workers s") auto
  with all have "Returned \<in> set (workers s)" by simp
  from D(7) [OF this] show st: "stop s" .
  from D(5) [OF st] show p: "P < nextPage s" .
  then have "[nextPage s..<P + 1] = []" by simp
  with D(3) e all_returned_sums(1) [OF all, of fetchPage]
  show "mset (allRecords s) = mset (concat (map fetchPage [1..<P + 1]))"
    by (simp del: upt_Suc)
  from D(4) all_returned_sums(2) [OF all] show "mset (requested s) = mset [1..<nextPage s]"
    by simp
qed

lemma fetchStep_stop:
  assumes "stop s" "fetchStep fetchPage a s = Some s'"
  shows "stop s'"
proof (cases a)
  case (Worker i)
  with assms show ?thesis
    by (cases "workers s ! i") (auto simp: fetchStep_def workerStep_def split: if_splits)
next
  case Closer
  with assms show ?thesis by (auto simp: fetchStep_def split: if_splits)
next
  case Caller
  with assms show ?thesis
    by (cases "results s") (auto simp: fetchStep_def split: if_splits)
qed

lemma hasPages_twoPages: "hasPages (fetchCommitPage twoPages) 2"
  unfolding hasPages_def by (auto simp: fetchCommitPage_def twoPages_def)

text \<open>
  C2, as the code has it. On a resource of \<open>P\<close> pages and with \<open>N \<ge> 1\<close> workers, in every
  interleaving: every page requested is between 1 and \<open>P + N\<close>; at most \<open>N\<close> stores to
  \<open>stop\<close> happen; \<open>stop\<close> is set exactly when one has happened, stays set in every
  further step, and is set when the caller returns. With one worker that is one store
  and no request after page \<open>P + 1\<close>.
\<close>

theorem C2_stop_and_overshoot:
  assumes "1 \<le> N" and "hasPages fetchPage P"
    and "fetchRun fetchPage sched (fetchInit N) = Some s"
  shows "(\<forall>page \<in> set (requested s). 1 \<le> page \<and> page \<le> P + N)
       \<and> signals s \<le> N
       \<and> (stop s \<longleftrightarrow> 0 < signals s)
       \<and> (\<forall>a s'. stop s \<and> fetchStep fetchPage a s = Some s' \<longrightarrow> stop s')
       \<and> (returned s \<longrightarrow> stop s \<and> 1 \<le> signals s)
       \<and> (N = 1 \<longrightarrow> signals s \<le> 1 \<and> (\<forall>page \<in> set (requested s). page \<le> P + 1))"
proof -
  have inv: "fetchInv fetchPage P N s"
    by (rule fetchRun_inv [OF assms(2) fetchInv_init assms(3)])
  note D = fetchInvD [OF inv]
  have np: "nextPage s \<le> P + 1 + N"
    using D(10) spent_le_length [of P "workers s"] D(1) by simp
  have a: "\<forall>page \<in> set (requested s). 1 \<le> page \<and> page \<le> P + N"
  proof
    fix page assume "page \<in> set (requested s)"
    then have "page \<in> set [1..<nextPage s]" using set_of_part [OF D(4)] by blast
    then show "1 \<le> page \<and> page \<le> P + N" using np by simp
  qed
  have b: "signals s \<le> N"
    using D(11) hasReturned_le_length [of "workers s"] D(1) by simp
  have c: "stop s \<longleftrightarrow> 0 < signals s" by (rule D(12))
  have d: "\<forall>a s'. stop s \<and> fetchStep fetchPage a s = Some s' \<longrightarrow> stop s'"
    using fetchStep_stop by blast
  have e: "returned s \<longrightarrow> stop s \<and> 1 \<le> signals s"
    using returned_facts(1) [OF inv assms(1)] c by auto
  have f: "N = 1 \<longrightarrow> signals s \<le> 1 \<and> (\<forall>page \<in> set (requested s). page \<le> P + 1)"
    using a b by auto
  from a b c d e f show ?thesis by (intro conjI)
qed

lemma run_oneWorker:
  "fetchRun (fetchCommitPage twoPages) oneWorkerSchedule (fetchInit 1) =
     Some \<lparr>nextPage = 4, stop = True, results = [], closed = True,
           workers = [Returned], allRecords = ''abc'', returned = True,
           requested = [1, 2, 3], signals = 1\<rparr>"
  by (simp add: oneWorkerSchedule_def fetchInit_def fetchStep_def workerStep_def
      fetchCommitPage_def twoPages_def)

text \<open>One worker on the resource of two pages: one store, and page 3 the last request.\<close>

theorem C2_stop_and_overshoot_witness:
  "(1::nat) \<le> 1 \<and> hasPages (fetchCommitPage twoPages) 2
   \<and> (\<exists>s. fetchRun (fetchCommitPage twoPages) oneWorkerSchedule (fetchInit 1) = Some s
          \<and> returned s \<and> stop s \<and> signals s = 1 \<and> requested s = [1, 2, 3]
          \<and> (\<forall>page \<in> set (requested s). page \<le> 2 + 1))"
proof -
  have n: "(1::nat) \<le> 1" by simp
  from C2_stop_and_overshoot [OF n hasPages_twoPages run_oneWorker] n hasPages_twoPages
    run_oneWorker
  show ?thesis by simp
qed

lemma hasPages_noPages: "hasPages (fetchCommitPage noPages) 0"
  unfolding hasPages_def by (auto simp: fetchCommitPage_def noPages_def)

text \<open>
  C2 as stated fails with two workers: on a resource with no record (page 1 is the first
  empty page) both workers load \<open>stop\<close> before either has an answer, so page 2 is
  requested and \<open>stop\<close> is stored twice.
\<close>

theorem C2_counterexample:
  "fetchCommitPage noPages 1 = []
   \<and> fetchRun (fetchCommitPage noPages) overshootSchedule (fetchInit 2) =
     Some \<lparr>nextPage = 3, stop = True, results = [], closed = True,
           workers = [Returned, Returned], allRecords = [], returned = True,
           requested = [1, 2], signals = 2\<rparr>"
  by (simp add: overshootSchedule_def fetchInit_def fetchStep_def workerStep_def
      fetchCommitPage_def noPages_def numeral_2_eq_2)

section \<open>The loop over the projects: lemmas\<close>





section \<open>C4: entries appended to the index in one run\<close>







section \<open>The paginated fetchers from their first line: lemmas\<close>

lemma makeChan_capacity:
  assumes "makeChan maxCap w = Some c" and "0 < sint w"
  shows "c = 2 * numWorkers w" and "sint w < 2 ^ 62"
proof -
  have pos: "0 \<le> sint (w * 2)"
    using assms(1) by (auto simp: makeChan_def Let_def split: if_splits)
  have c: "c = nat (sint (w * 2))"
    using assms(1) by (auto simp: makeChan_def Let_def split: if_splits)
  have m: "sint (w * 2) = signed_take_bit 63 (sint w * 2)"
    by (simp add: sint_word_ariths)
  show lt: "sint w < 2 ^ 62"
  proof (rule ccontr)
    assume "\<not> sint w < 2 ^ 62"
    then have "(2::int) ^ 63 \<le> sint w * 2" by simp
    from signed_take_bit_int_less_eq [OF this]
    have "signed_take_bit 63 (sint w * 2) \<le> sint w * 2 - 2 ^ 64" by simp
    moreover have "sint w < 2 ^ 63" using sint_lt [of w] by simp
    ultimately show False using pos m by simp
  qed
  have "signed_take_bit 63 (sint w * 2) = sint w * 2"
    using lt assms(2) by (intro signed_take_bit_int_eq_self) simp_all
  then show "c = 2 * numWorkers w"
    using c m assms(2) by (simp add: numWorkers_def nat_mult_distrib)
qed

lemma numWorkers_pos: "0 < sint w \<Longrightarrow> 1 \<le> numWorkers w"
  by (simp add: numWorkers_def)

lemma fetchRun_append:
  "fetchRun fetchPage (xs @ ys) s
     = (case fetchRun fetchPage xs s of None \<Rightarrow> None | Some s' \<Rightarrow> fetchRun fetchPage ys s')"
  by (induction xs arbitrary: s) (auto split: option.splits)

lemma servesPages_page:
  assumes "servesPages listPage pages"
  shows "fetchCommitPage listPage page
           = (if 1 \<le> page \<and> page \<le> length pages then pages ! (page - 1) else [])"
    and "fetchMRPage listPage page
           = (if 1 \<le> page \<and> page \<le> length pages then pages ! (page - 1) else [])"
  using assms by (simp_all add: servesPages_def fetchCommitPage_def fetchMRPage_def)

lemma map_pages:
  "map (\<lambda>page. if 1 \<le> page \<and> page \<le> length pages then pages ! (page - 1) else [])
       [1..<length pages + 1] = pages"
proof (rule nth_equalityI)
  show "length (map (\<lambda>page. if 1 \<le> page \<and> page \<le> length pages then pages ! (page - 1) else [])
       [1..<length pages + 1]) = length pages" by (simp del: upt_Suc)
next
  fix i
  assume "i < length (map (\<lambda>page. if 1 \<le> page \<and> page \<le> length pages then pages ! (page - 1) else [])
       [1..<length pages + 1])"
  then have i: "i < length pages" by (simp del: upt_Suc)
  then have "[1..<length pages + 1] ! i = 1 + i" by (intro nth_upt) simp
  then show "map (\<lambda>page. if 1 \<le> page \<and> page \<le> length pages then pages ! (page - 1) else [])
       [1..<length pages + 1] ! i = pages ! i" using i by (simp del: upt_Suc)
qed

lemma servesPages_hasPages:
  assumes "servesPages listPage pages"
  shows "hasPages (fetchCommitPage listPage) (length pages)"
    and "hasPages (fetchMRPage listPage) (length pages)"
    and "concat (map (fetchCommitPage listPage) [1..<length pages + 1]) = concat pages"
    and "concat (map (fetchMRPage listPage) [1..<length pages + 1]) = concat pages"
proof -
  have ne: "[] \<notin> set pages" using assms by (simp add: servesPages_def)
  have nth: "1 \<le> page \<Longrightarrow> page \<le> length pages \<Longrightarrow> pages ! (page - 1) \<noteq> []" for page
  proof -
    assume a: "1 \<le> page" "page \<le> length pages"
    then have "page - 1 < length pages" by simp
    from nth_mem [OF this] ne show ?thesis by auto
  qed
  show "hasPages (fetchCommitPage listPage) (length pages)"
    unfolding hasPages_def servesPages_page(1) [OF assms] using nth by auto
  show "hasPages (fetchMRPage listPage) (length pages)"
    unfolding hasPages_def servesPages_page(2) [OF assms] using nth by auto
  have c: "fetchCommitPage listPage
             = (\<lambda>page. if 1 \<le> page \<and> page \<le> length pages then pages ! (page - 1) else [])"
    by (rule ext) (rule servesPages_page(1) [OF assms])
  have m: "fetchMRPage listPage
             = (\<lambda>page. if 1 \<le> page \<and> page \<le> length pages then pages ! (page - 1) else [])"
    by (rule ext) (rule servesPages_page(2) [OF assms])
  show "concat (map (fetchCommitPage listPage) [1..<length pages + 1]) = concat pages"
    unfolding c map_pages ..
  show "concat (map (fetchMRPage listPage) [1..<length pages + 1]) = concat pages"
    unfolding m map_pages ..
qed

section \<open>C1: the records of all pages\<close>

lemma started_run:
  assumes "fetcher = fetchCommits \<or> fetcher = fetchMRs"
    and "servesPages listPage pages"
  shows "\<exists>fetchPage.
      hasPages fetchPage (length pages)
    \<and> concat (map fetchPage [1..<length pages + 1]) = concat pages
    \<and> (\<forall>sched. fetcher maxCap listPage nWorkers sched
         = (case makeChan maxCap nWorkers of
              None \<Rightarrow> PanicMakechan
            | Some capacity \<Rightarrow>
                Started (fetchRun fetchPage sched (fetchInit (numWorkers nWorkers)))))"
proof -
  note h = servesPages_hasPages [OF assms(2)]
  from assms(1) show ?thesis
  proof
    assume f: "fetcher = fetchCommits"
    have "\<forall>sched. fetcher maxCap listPage nWorkers sched
         = (case makeChan maxCap nWorkers of
              None \<Rightarrow> PanicMakechan
            | Some capacity \<Rightarrow>
                Started (fetchRun (fetchCommitPage listPage) sched
                           (fetchInit (numWorkers nWorkers))))"
      by (simp add: f fetchCommits_def)
    with h(1,3) show ?thesis by blast
  next
    assume f: "fetcher = fetchMRs"
    have "\<forall>sched. fetcher maxCap listPage nWorkers sched
         = (case makeChan maxCap nWorkers of
              None \<Rightarrow> PanicMakechan
            | Some capacity \<Rightarrow>
                Started (fetchRun (fetchMRPage listPage) sched
                           (fetchInit (numWorkers nWorkers))))"
      by (simp add: f fetchMRs_def)
    with h(2,4) show ?thesis by blast
  qed
qed

text \<open>
  C1, as the code has it. A client serves a resource of \<open>P\<close> pages when it answers the
  pages, none of them empty, for the page numbers 1 to \<open>P\<close> and an empty page for every
  other one. Let the number of workers be at least 1. Then \<open>fetchCommits\<close> and \<open>fetchMRs\<close>
  panic exactly when \<open>make\<close> cannot make the channel; the capacity made is twice the
  number of workers; and when the channel is made, in every interleaving of the
  workers, the closer and the caller: no page is requested twice; the run takes at most
  \<open>5P + 4N + 2\<close> steps and, as long as the caller has not returned, some goroutine can
  take a step (so every run can be continued to the caller's return, and none goes on
  for ever); and when the caller returns, what it returns is, as a multiset, the records
  of the pages 1 to \<open>P\<close>, every one of which was requested.
\<close>

theorem C1_all_pages_once:
  assumes "fetcher = fetchCommits \<or> fetcher = fetchMRs"
    and "servesPages listPage pages"
    and "0 < sint nWorkers"
  shows "(fetcher maxCap listPage nWorkers sched = PanicMakechan
            \<longleftrightarrow> makeChan maxCap nWorkers = None)
       \<and> (\<forall>capacity. makeChan maxCap nWorkers = Some capacity
            \<longrightarrow> capacity = 2 * numWorkers nWorkers
              \<and> fetcher maxCap listPage nWorkers []
                  = Started (Some (fetchInit (numWorkers nWorkers))))
       \<and> (\<forall>s. fetcher maxCap listPage nWorkers sched = Started (Some s) \<longrightarrow>
            distinct (requested s)
          \<and> length sched \<le> 5 * length pages + 4 * numWorkers nWorkers + 2
          \<and> (\<not> returned s \<longrightarrow>
               (\<exists>a s'. fetcher maxCap listPage nWorkers (sched @ [a]) = Started (Some s')))
          \<and> (returned s \<longrightarrow>
               mset (allRecords s) = mset (concat pages)
             \<and> {1..length pages} \<subseteq> set (requested s)))"
proof -
  let ?P = "length pages" and ?N = "numWorkers nWorkers"
  obtain fetchPage where hp: "hasPages fetchPage ?P"
    and cc: "concat (map fetchPage [1..<?P + 1]) = concat pages"
    and f: "\<And>sched. fetcher maxCap listPage nWorkers sched
       = (case makeChan maxCap nWorkers of
            None \<Rightarrow> PanicMakechan
          | Some capacity \<Rightarrow> Started (fetchRun fetchPage sched (fetchInit ?N)))"
    using started_run [OF assms(1,2), of maxCap nWorkers] by blast
  have n: "1 \<le> ?N" by (rule numWorkers_pos [OF assms(3)])
  have a: "fetcher maxCap listPage nWorkers sched = PanicMakechan
            \<longleftrightarrow> makeChan maxCap nWorkers = None"
    by (simp add: f split: option.splits)
  have b: "\<forall>capacity. makeChan maxCap nWorkers = Some capacity
            \<longrightarrow> capacity = 2 * ?N
              \<and> fetcher maxCap listPage nWorkers [] = Started (Some (fetchInit ?N))"
    using makeChan_capacity(1) [OF _ assms(3)] by (auto simp: f)
  have c: "\<forall>s. fetcher maxCap listPage nWorkers sched = Started (Some s) \<longrightarrow>
            distinct (requested s)
          \<and> length sched \<le> 5 * ?P + 4 * ?N + 2
          \<and> (\<not> returned s \<longrightarrow>
               (\<exists>a s'. fetcher maxCap listPage nWorkers (sched @ [a]) = Started (Some s')))
          \<and> (returned s \<longrightarrow>
               mset (allRecords s) = mset (concat pages)
             \<and> {1..?P} \<subseteq> set (requested s))"
  proof (intro allI impI)
    fix s
    assume "fetcher maxCap listPage nWorkers sched = Started (Some s)"
    then obtain capacity where mk: "makeChan maxCap nWorkers = Some capacity"
      and run: "fetchRun fetchPage sched (fetchInit ?N) = Some s"
      by (auto simp: f split: option.splits)
    have inv: "fetchInv fetchPage ?P ?N s"
      by (rule fetchRun_inv [OF hp fetchInv_init run])
    have d: "distinct (requested s)"
      by (rule distinct_of_part [OF fetchInvD(4) [OF inv]]) simp
    have l: "length sched \<le> 5 * ?P + 4 * ?N + 2"
      using fetchRun_measure [OF hp run] by (simp add: fetchMeasure_init)
    have p: "\<not> returned s \<longrightarrow>
               (\<exists>a s'. fetcher maxCap listPage nWorkers (sched @ [a]) = Started (Some s'))"
    proof
      assume "\<not> returned s"
      with fetch_progress [of s fetchPage] obtain a s' where "fetchStep fetchPage a s = Some s'"
        by blast
      then have "fetchRun fetchPage (sched @ [a]) (fetchInit ?N) = Some s'"
        by (simp add: fetchRun_append run)
      then show "\<exists>a s'. fetcher maxCap listPage nWorkers (sched @ [a]) = Started (Some s')"
        by (auto simp: f mk)
    qed
    have r: "returned s \<longrightarrow>
               mset (allRecords s) = mset (concat pages) \<and> {1..?P} \<subseteq> set (requested s)"
    proof
      assume "returned s"
      note rf = returned_facts [OF inv n this]
      have "set (requested s) = set [1..<nextPage s]"
        using rf(4) by (metis set_mset_mset)
      then have "{1..?P} \<subseteq> set (requested s)" using rf(2) by auto
      with rf(3) cc show "mset (allRecords s) = mset (concat pages)
            \<and> {1..?P} \<subseteq> set (requested s)" by (simp del: upt_Suc)
    qed
    from d l p r show "distinct (requested s)
          \<and> length sched \<le> 5 * ?P + 4 * ?N + 2
          \<and> (\<not> returned s \<longrightarrow>
               (\<exists>a s'. fetcher maxCap listPage nWorkers (sched @ [a]) = Started (Some s')))
          \<and> (returned s \<longrightarrow>
               mset (allRecords s) = mset (concat pages)
             \<and> {1..?P} \<subseteq> set (requested s))" by (intro conjI)
  qed
  from a b c show ?thesis by (intro conjI)
qed

lemma makeChan_2: "makeChan exampleMaxCap 2 = Some 4"
  by (simp add: makeChan_def exampleMaxCap_def)

lemma numWorkers_2: "numWorkers 2 = 2"
  by (simp add: numWorkers_def)

lemma makeChan_wraps: "makeChan maxCap 4611686018427387904 = None"
  by (simp add: makeChan_def)

lemma servesPages_twoPages: "servesPages twoPages [''ab'', ''c'']"
proof -
  have "twoPages page
          = Some (if 1 \<le> page \<and> page \<le> length [''ab'', ''c'']
                  then [''ab'', ''c''] ! (page - 1) else [])" for page
  proof -
    consider "page = 0" | "page = 1" | "page = 2" | "2 < page" by linarith
    then show ?thesis by cases (simp_all add: twoPages_def)
  qed
  then show ?thesis unfolding servesPages_def by simp
qed

lemma run_twoWorkers:
  "fetchRun (fetchCommitPage twoPages) twoWorkersSchedule (fetchInit 2) =
     Some \<lparr>nextPage = 4, stop = True, results = [], closed = True,
           workers = [Returned, Returned], allRecords = ''cab'', returned = True,
           requested = [1, 2, 3], signals = 1\<rparr>"
  by (simp add: twoWorkersSchedule_def fetchInit_def fetchStep_def workerStep_def
      fetchCommitPage_def twoPages_def numeral_2_eq_2)

lemma fetchMRPage_eq: "fetchMRPage = fetchCommitPage"
  by (intro ext) (simp add: fetchMRPage_def fetchCommitPage_def)

lemma fetchCommits_twoWorkers:
  "fetchCommits exampleMaxCap twoPages 2 twoWorkersSchedule =
     Started (Some \<lparr>nextPage = 4, stop = True, results = [], closed = True,
           workers = [Returned, Returned], allRecords = ''cab'', returned = True,
           requested = [1, 2, 3], signals = 1\<rparr>)"
  by (simp add: fetchCommits_def makeChan_2 numWorkers_2 run_twoWorkers)

lemma fetchMRs_twoWorkers:
  "fetchMRs exampleMaxCap twoPages 2 twoWorkersSchedule =
     Started (Some \<lparr>nextPage = 4, stop = True, results = [], closed = True,
           workers = [Returned, Returned], allRecords = ''cab'', returned = True,
           requested = [1, 2, 3], signals = 1\<rparr>)"
  by (simp add: fetchMRs_def fetchMRPage_eq makeChan_2 numWorkers_2 run_twoWorkers)

text \<open>
  Two workers on the resource of two pages, run to the caller's return by each of the
  two fetchers.
\<close>

theorem C1_all_pages_once_witness:
  "servesPages twoPages [''ab'', ''c''] \<and> 0 < sint (2 :: int64)
   \<and> makeChan exampleMaxCap 2 = Some (2 * numWorkers 2)
   \<and> (\<exists>s. fetchCommits exampleMaxCap twoPages 2 twoWorkersSchedule = Started (Some s)
          \<and> returned s \<and> allRecords s = ''cab'' \<and> requested s = [1, 2, 3]
          \<and> distinct (requested s)
          \<and> mset (allRecords s) = mset (concat [''ab'', ''c''])
          \<and> {1..length [''ab'', ''c'']} \<subseteq> set (requested s))
   \<and> (\<exists>s. fetchMRs exampleMaxCap twoPages 2 twoWorkersSchedule = Started (Some s)
          \<and> returned s \<and> allRecords s = ''cab'' \<and> requested s = [1, 2, 3]
          \<and> distinct (requested s)
          \<and> mset (allRecords s) = mset (concat [''ab'', ''c''])
          \<and> {1..length [''ab'', ''c'']} \<subseteq> set (requested s))"
proof -
  have n: "0 < sint (2 :: int64)" by simp
  have c: "fetchCommits = fetchCommits \<or> fetchCommits = fetchMRs"
    and m: "fetchMRs = fetchCommits \<or> fetchMRs = fetchMRs" by simp_all
  from C1_all_pages_once [where maxCap = exampleMaxCap and sched = twoWorkersSchedule,
      OF c servesPages_twoPages n]
    C1_all_pages_once [where maxCap = exampleMaxCap and sched = twoWorkersSchedule,
      OF m servesPages_twoPages n]
    n servesPages_twoPages fetchCommits_twoWorkers fetchMRs_twoWorkers
  show ?thesis by (simp add: makeChan_2)
qed

text \<open>
  C1 as stated fails. A resource whose page 1 is empty has \<open>P = 0\<close> pages in the sense
  of the claim, whatever its later pages hold: with two workers the second one claims
  page 2 before the first has its answer, and the record of page 2 is returned. And a
  number of workers whose double wraps around has no run at all: \<open>make\<close> panics.
\<close>

theorem C1_counterexample:
  "gapPages 1 = Some []
   \<and> fetchCommits exampleMaxCap gapPages 2 gapSchedule =
       Started (Some \<lparr>nextPage = 3, stop = True, results = [], closed = True,
           workers = [Returned, Returned], allRecords = ''x'', returned = True,
           requested = [1, 2], signals = 1\<rparr>)
   \<and> 0 < sint (4611686018427387904 :: int64)
   \<and> fetchCommits exampleMaxCap twoPages 4611686018427387904 [] = PanicMakechan"
proof -
  have r: "fetchRun (fetchCommitPage gapPages) gapSchedule (fetchInit 2) =
       Some \<lparr>nextPage = 3, stop = True, results = [], closed = True,
           workers = [Returned, Returned], allRecords = ''x'', returned = True,
           requested = [1, 2], signals = 1\<rparr>"
    by (simp add: gapSchedule_def fetchInit_def fetchStep_def workerStep_def
        fetchCommitPage_def gapPages_def numeral_2_eq_2)
  have p: "0 < sint (4611686018427387904 :: int64)" by simp
  show ?thesis
    by (simp add: fetchCommits_def makeChan_2 numWorkers_2 r makeChan_wraps gapPages_def)
qed

section \<open>fetchDiscussions: invariants, progress and termination\<close>

lemma discInvD:
  assumes "discInv M N s"
  shows "length (d_workers s) = N"
    and "mset (map snd (d_requested s)) + sum_list (map dclaimed (d_workers s))
          = mset [0..<min (nextIdx s) M]"
    and "\<And>r. r \<in> set (d_requested s) \<Longrightarrow> fst r < N"
    and "DReturned \<in> set (d_workers s) \<Longrightarrow> M \<le> nextIdx s"
    and "d_closed s \<Longrightarrow> list_all (\<lambda>w. w = DReturned) (d_workers s)"
    and "d_returned s \<Longrightarrow> d_closed s \<and> d_results s = []"
  using assms unfolding discInv_def by blast+

lemma discInvI:
  assumes "length (d_workers s) = N"
    and "mset (map snd (d_requested s)) + sum_list (map dclaimed (d_workers s))
          = mset [0..<min (nextIdx s) M]"
    and "\<And>r. r \<in> set (d_requested s) \<Longrightarrow> fst r < N"
    and "DReturned \<in> set (d_workers s) \<Longrightarrow> M \<le> nextIdx s"
    and "d_closed s \<Longrightarrow> list_all (\<lambda>w. w = DReturned) (d_workers s)"
    and "d_returned s \<Longrightarrow> d_closed s \<and> d_results s = []"
  shows "discInv M N s"
  using assms unfolding discInv_def by blast

lemma disc_not_closed:
  assumes "discInv M N s" "i < length (d_workers s)" "d_workers s ! i \<noteq> DReturned"
  shows "\<not> d_closed s" "\<not> d_returned s"
proof -
  show c: "\<not> d_closed s"
    using discInvD(5) [OF assms(1)] assms(2,3) by (auto simp: list_all_length)
  show "\<not> d_returned s" using c discInvD(6) [OF assms(1)] by blast
qed

lemma disc_claim:
  assumes inv: "discInv M N s" and i: "i < length (d_workers s)"
    and w: "d_workers s ! i = DClaim"
  shows "discInv M N
           (s\<lparr>nextIdx := nextIdx s + 1,
              d_workers := (d_workers s)[i := (if nextIdx s \<ge> M then DReturned
                                              else DFetch (nextIdx s))]\<rparr>)"
proof -
  define w' :: "'a dstate" where
    "w' = (if nextIdx s \<ge> M then DReturned else DFetch (nextIdx s))"
  note D = discInvD [OF inv]
  have nc: "\<not> d_closed s" "\<not> d_returned s" using disc_not_closed [OF inv i] w by simp_all
  have u: "sum_list (map dclaimed ((d_workers s)[i := w']))
             = sum_list (map dclaimed (d_workers s))
                 + (if nextIdx s \<ge> M then {#} else {#nextIdx s#})"
    using sum_list_update [OF i, of dclaimed w'] w
    by (cases "nextIdx s \<ge> M") (simp_all add: w'_def)
  have m: "x \<in> set ((d_workers s)[i := w']) \<Longrightarrow> x = w' \<or> x \<in> set (d_workers s)" for x
    by (rule set_update_cases)
  show ?thesis
    unfolding w'_def [symmetric]
  proof (rule discInvI)
    let ?s' = "s\<lparr>nextIdx := nextIdx s + 1, d_workers := (d_workers s)[i := w']\<rparr>"
    show "mset (map snd (d_requested ?s')) + sum_list (map dclaimed (d_workers ?s'))
          = mset [0..<min (nextIdx ?s') M]"
    proof (cases "nextIdx s \<ge> M")
      case True
      then have "min (nextIdx s + 1) M = min (nextIdx s) M" by simp
      then show ?thesis using D(2) True by (simp add: u del: upt_Suc)
    next
      case False
      then have "min (nextIdx s + 1) M = Suc (nextIdx s)" "min (nextIdx s) M = nextIdx s"
        by simp_all
      then show ?thesis using D(2) False by (simp add: u)
    qed
    show "DReturned \<in> set (d_workers ?s') \<Longrightarrow> M \<le> nextIdx ?s'"
      using m [of DReturned] D(4) by (auto simp: w'_def split: if_splits)
  qed (use D nc in \<open>simp_all\<close>)
qed

lemma mem_sum_dclaimed: "DFetch idx \<in> set ws \<Longrightarrow> idx \<in># sum_list (map dclaimed ws)"
  by (induction ws) auto

lemma disc_claimed_idx:
  assumes "discInv M N s" "i < length (d_workers s)" "d_workers s ! i = DFetch idx"
  shows "idx < M"
proof -
  have "DFetch idx \<in> set (d_workers s)" using assms(2,3) by (metis nth_mem)
  then have "idx \<in># sum_list (map dclaimed (d_workers s))"
    by (rule mem_sum_dclaimed)
  then have "idx \<in># mset [0..<min (nextIdx s) M]"
    unfolding discInvD(2) [OF assms(1), symmetric] by simp
  then have "idx \<in> set [0..<min (nextIdx s) M]" by (simp only: set_mset_mset)
  then show ?thesis by simp
qed

lemma disc_fetch:
  assumes inv: "discInv M N s" and i: "i < length (d_workers s)"
    and w: "d_workers s ! i = DFetch idx"
  shows "discInv M N
           (s\<lparr>d_requested := d_requested s @ [(i, idx)],
              d_workers := (d_workers s)[i := DSend notes]\<rparr>)"
proof -
  note D = discInvD [OF inv]
  have nc: "\<not> d_closed s" "\<not> d_returned s" using disc_not_closed [OF inv i] w by simp_all
  have u: "sum_list (map dclaimed ((d_workers s)[i := DSend notes])) + {#idx#}
             = sum_list (map dclaimed (d_workers s))"
    using sum_list_update [OF i, of dclaimed "DSend notes"] w by simp
  have m: "x \<in> set ((d_workers s)[i := DSend notes]) \<Longrightarrow> x = DSend notes \<or> x \<in> set (d_workers s)"
    for x by (rule set_update_cases)
  show ?thesis
  proof (rule discInvI)
    let ?s' = "s\<lparr>d_requested := d_requested s @ [(i, idx)],
                  d_workers := (d_workers s)[i := DSend notes]\<rparr>"
    show "mset (map snd (d_requested ?s')) + sum_list (map dclaimed (d_workers ?s'))
          = mset [0..<min (nextIdx ?s') M]"
      using D(2) [unfolded u [symmetric]] by (simp add: ac_simps)
    show "DReturned \<in> set (d_workers ?s') \<Longrightarrow> M \<le> nextIdx ?s'"
      using m [of DReturned] D(4) by auto
    show "\<And>r. r \<in> set (d_requested ?s') \<Longrightarrow> fst r < N"
      using D(3) D(1) i by auto
  qed (use D nc in \<open>simp_all\<close>)
qed

lemma disc_move:
  assumes inv: "discInv M N s" and i: "i < length (d_workers s)"
    and w: "d_workers s ! i \<noteq> DReturned" "dclaimed (d_workers s ! i) = {#}"
    and w': "w' \<noteq> DReturned" "dclaimed w' = {#}"
    and s': "nextIdx s' = nextIdx s" "d_requested s' = d_requested s"
      "d_workers s' = (d_workers s)[i := w']" "d_closed s' = d_closed s"
      "d_returned s' = d_returned s"
  shows "discInv M N s'"
proof -
  note D = discInvD [OF inv]
  have nc: "\<not> d_closed s" "\<not> d_returned s" using disc_not_closed [OF inv i] w by simp_all
  have u: "sum_list (map dclaimed ((d_workers s)[i := w'])) = sum_list (map dclaimed (d_workers s))"
    using sum_list_update [OF i, of dclaimed w'] w(2) w'(2) by simp
  have m: "x \<in> set ((d_workers s)[i := w']) \<Longrightarrow> x = w' \<or> x \<in> set (d_workers s)" for x
    by (rule set_update_cases)
  show ?thesis
  proof (rule discInvI)
    show "DReturned \<in> set (d_workers s') \<Longrightarrow> M \<le> nextIdx s'"
      using m [of DReturned] D(4) w'(1) by (auto simp: s')
    show "\<And>r. r \<in> set (d_requested s') \<Longrightarrow> fst r < N" using D(3) by (simp add: s')
  qed (use D nc u in \<open>simp_all add: s'\<close>)
qed

lemma discStep_inv:
  assumes inv: "discInv (length mrIIDs) N s"
    and st: "discStep fetchNotes mrIIDs a s = Some s'"
  shows "discInv (length mrIIDs) N s'"
proof (cases a)
  case (Worker i)
  with st have ws: "discWorkerStep fetchNotes mrIIDs i s = Some s'" by (simp add: discStep_def)
  then have i: "i < length (d_workers s)" by (auto simp: discWorkerStep_def split: if_splits)
  show ?thesis
  proof (cases "d_workers s ! i")
    case DClaim
    with ws i disc_claim [OF inv i DClaim] show ?thesis by (auto simp: discWorkerStep_def)
  next
    case (DFetch idx)
    with ws i disc_fetch [OF inv i DFetch] show ?thesis by (auto simp: discWorkerStep_def)
  next
    case (DSend ns)
    with ws i have s': "s' = s\<lparr>d_results := d_results s @ [ns],
                                d_workers := (d_workers s)[i := DCount]\<rparr>"
      by (auto simp: discWorkerStep_def split: if_splits)
    show ?thesis by (rule disc_move [OF inv i, of DCount]) (simp_all add: DSend s')
  next
    case DCount
    with ws i have s': "s' = s\<lparr>done_count := done_count s + 1,
                                d_workers := (d_workers s)[i := DClaim]\<rparr>"
      by (auto simp: discWorkerStep_def)
    show ?thesis by (rule disc_move [OF inv i, of DClaim]) (simp_all add: DCount s')
  next
    case DReturned
    with ws i show ?thesis by (auto simp: discWorkerStep_def)
  qed
next
  case Closer
  with st have s': "s' = s\<lparr>d_closed := True\<rparr>"
    and all: "list_all (\<lambda>w. w = DReturned) (d_workers s)"
    by (auto simp: discStep_def split: if_splits)
  show ?thesis unfolding s' by (rule discInvI) (use discInvD [OF inv] all in \<open>simp_all\<close>)
next
  case Caller
  show ?thesis
  proof (cases "d_results s")
    case Nil
    with st Caller have s': "s' = s\<lparr>d_returned := True\<rparr>" and c: "d_closed s"
      by (auto simp: discStep_def split: if_splits)
    show ?thesis unfolding s' by (rule discInvI) (use discInvD [OF inv] c Nil in \<open>simp_all\<close>)
  next
    case (Cons ns rest)
    with st Caller have s': "s' = s\<lparr>d_results := rest, allNotes := allNotes s @ ns\<rparr>"
      and nr: "\<not> d_returned s"
      by (auto simp: discStep_def split: if_splits)
    show ?thesis unfolding s' by (rule discInvI) (use discInvD [OF inv] nr in \<open>simp_all\<close>)
  qed
qed

lemma discInv_init: "discInv M N (discInit N)"
  by (rule discInvI) (simp_all add: discInit_def sum_list_replicate_empty)

lemma discRun_inv:
  "discInv (length mrIIDs) N s \<Longrightarrow> discRun fetchNotes mrIIDs sched s = Some s'
     \<Longrightarrow> discInv (length mrIIDs) N s'"
proof (induction sched arbitrary: s)
  case Nil
  then show ?case by simp
next
  case (Cons a sched)
  from Cons.prems(2) obtain s1 where s1: "discStep fetchNotes mrIIDs a s = Some s1"
    and r: "discRun fetchNotes mrIIDs sched s1 = Some s'"
    by (auto split: option.splits)
  from Cons.IH [OF discStep_inv [OF Cons.prems(1) s1] r] show ?case .
qed

lemma discStep_measure:
  assumes st: "discStep fetchNotes mrIIDs a s = Some s'"
  shows "discMeasure (length mrIIDs) s' < discMeasure (length mrIIDs) s"
proof (cases a)
  case (Worker i)
  with st have ws: "discWorkerStep fetchNotes mrIIDs i s = Some s'" by (simp add: discStep_def)
  then have i: "i < length (d_workers s)" by (auto simp: discWorkerStep_def split: if_splits)
  note u = sum_list_update [OF i, of dweight]
  show ?thesis
  proof (cases "d_workers s ! i")
    case DClaim
    with ws i u [of "if nextIdx s \<ge> length mrIIDs then DReturned else DFetch (nextIdx s)"]
    show ?thesis
      by (cases "nextIdx s \<ge> length mrIIDs") (auto simp: discWorkerStep_def discMeasure_def)
  next
    case (DFetch idx)
    with ws i u [of "DSend (fetchNotes (mrIIDs ! idx))"] show ?thesis
      by (auto simp: discWorkerStep_def discMeasure_def)
  next
    case (DSend ns)
    with ws i u [of DCount] show ?thesis
      by (auto simp: discWorkerStep_def discMeasure_def split: if_splits)
  next
    case DCount
    with ws i u [of DClaim] show ?thesis by (auto simp: discWorkerStep_def discMeasure_def)
  next
    case DReturned
    with ws i show ?thesis by (auto simp: discWorkerStep_def)
  qed
next
  case Closer
  with st show ?thesis by (auto simp: discStep_def discMeasure_def split: if_splits)
next
  case Caller
  with st show ?thesis
    by (cases "d_results s") (auto simp: discStep_def discMeasure_def split: if_splits)
qed

lemma discRun_measure:
  "discRun fetchNotes mrIIDs sched s = Some s'
     \<Longrightarrow> length sched + discMeasure (length mrIIDs) s' \<le> discMeasure (length mrIIDs) s"
proof (induction sched arbitrary: s)
  case Nil
  then show ?case by simp
next
  case (Cons a sched)
  from Cons.prems obtain s1 where s1: "discStep fetchNotes mrIIDs a s = Some s1"
    and r: "discRun fetchNotes mrIIDs sched s1 = Some s'"
    by (auto split: option.splits)
  from Cons.IH [OF r] discStep_measure [OF s1] show ?case by simp
qed

lemma discMeasure_init: "discMeasure M (discInit N) = 5 * M + N + 2"
  by (simp add: discMeasure_def discInit_def sum_list_replicate_const)

lemma disc_progress:
  assumes "\<not> d_returned s"
  shows "\<exists>a. discStep fetchNotes mrIIDs a s \<noteq> None"
proof (cases "\<exists>i < length (d_workers s). d_workers s ! i \<noteq> DReturned
                \<and> (\<forall>notes. d_workers s ! i \<noteq> DSend notes)")
  case True
  then obtain i where i: "i < length (d_workers s)" "d_workers s ! i \<noteq> DReturned"
    "\<forall>notes. d_workers s ! i \<noteq> DSend notes" by blast
  then have "discStep fetchNotes mrIIDs (Worker i) s \<noteq> None"
    by (cases "d_workers s ! i") (auto simp: discStep_def discWorkerStep_def)
  then show ?thesis by blast
next
  case False
  then have blocked: "\<And>i. i < length (d_workers s) \<Longrightarrow>
      d_workers s ! i = DReturned \<or> (\<exists>notes. d_workers s ! i = DSend notes)" by blast
  show ?thesis
  proof (cases "d_results s")
    case (Cons ns rest)
    then have "discStep fetchNotes mrIIDs Caller s \<noteq> None"
      using assms by (simp add: discStep_def)
    then show ?thesis by blast
  next
    case Nil
    show ?thesis
    proof (cases "\<exists>i < length (d_workers s). \<exists>notes. d_workers s ! i = DSend notes")
      case True
      then obtain i ns where i: "i < length (d_workers s)" "d_workers s ! i = DSend ns"
        by blast
      then have "discStep fetchNotes mrIIDs (Worker i) s \<noteq> None"
        using Nil by (auto simp: discStep_def discWorkerStep_def)
      then show ?thesis by blast
    next
      case False
      with blocked have "list_all (\<lambda>w. w = DReturned) (d_workers s)"
        by (auto simp: list_all_length)
      then have "discStep fetchNotes mrIIDs Closer s \<noteq> None
                 \<or> discStep fetchNotes mrIIDs Caller s \<noteq> None"
        using Nil assms by (cases "d_closed s") (simp_all add: discStep_def)
      then show ?thesis by blast
    qed
  qed
qed

lemma all_dreturned_sum:
  assumes "list_all (\<lambda>w. w = DReturned) ws"
  shows "sum_list (map dclaimed ws) = {#}"
  using assms by (induction ws) simp_all

lemma discInit_2:
  "discInit 2 = \<lparr>nextIdx = 0, d_results = [], d_closed = False,
     d_workers = [DClaim, DClaim], allNotes = [], d_returned = False, done_count = 0,
     d_requested = []\<rparr>"
  by (simp add: discInit_def numeral_2_eq_2)

lemma run_discussions:
  "discRun (fetchMRDiscussions exampleDiscussions) threeMRs discussionSchedule (discInit 2) =
     Some \<lparr>nextIdx = 5, d_results = [], d_closed = True,
           d_workers = [DReturned, DReturned], allNotes = ''xyz'',
           d_returned = True, done_count = 3,
           d_requested = [(0, 0), (1, 1), (0, 2)]\<rparr>"
  by (simp add: discussionSchedule_def threeMRs_def discInit_2 discStep_def
      discWorkerStep_def fetchMRDiscussions_def exampleDiscussions_def)

lemma discNotes_worker:
  assumes inv: "discNotesInv fetchNotes mrIIDs s" and i: "i < length (d_workers s)"
    and s': "allNotes s' = allNotes s" "d_workers s' = (d_workers s)[i := w']"
    and m: "mset (concat (d_results s')) + dinflight fetchNotes mrIIDs w'
              + mset (concat (map fetchNotes (drop (nextIdx s') mrIIDs)))
            = mset (concat (d_results s)) + dinflight fetchNotes mrIIDs (d_workers s ! i)
              + mset (concat (map fetchNotes (drop (nextIdx s) mrIIDs)))"
  shows "discNotesInv fetchNotes mrIIDs s'"
proof -
  let ?f = "dinflight fetchNotes mrIIDs"
  define A where "A = mset (allNotes s)"
  define R where "R = mset (concat (d_results s))"
  define R' where "R' = mset (concat (d_results s'))"
  define W where "W = sum_list (map ?f (d_workers s))"
  define W' where "W' = sum_list (map ?f ((d_workers s)[i := w']))"
  define Q where "Q = mset (concat (map fetchNotes (drop (nextIdx s) mrIIDs)))"
  define Q' where "Q' = mset (concat (map fetchNotes (drop (nextIdx s') mrIIDs)))"
  define T where "T = mset (concat (map fetchNotes mrIIDs))"
  define x where "x = ?f (d_workers s ! i)"
  define y where "y = ?f w'"
  have u: "W' + x = W + y"
    unfolding W'_def W_def x_def y_def by (rule sum_list_update [OF i])
  have m': "R' + y + Q' = R + x + Q"
    using m unfolding R'_def R_def Q'_def Q_def x_def y_def .
  have inv': "A + R + W + Q = T"
    using inv unfolding discNotesInv_def A_def R_def W_def Q_def T_def .
  have "A + R' + W' + Q' + x = A + W' + x + (R' + Q')" by (simp add: ac_simps)
  also have "\<dots> = A + W + (R' + y + Q')" unfolding add.assoc [of A W' x] u
    by (simp add: ac_simps)
  also have "\<dots> = A + W + (R + x + Q)" unfolding m' ..
  also have "\<dots> = A + R + W + Q + x" by (simp add: ac_simps)
  finally have "A + R' + W' + Q' = A + R + W + Q" by simp
  then have "A + R' + W' + Q' = T" using inv' by simp
  then show ?thesis
    unfolding discNotesInv_def A_def R'_def W'_def Q'_def T_def s' .
qed

lemma discNotes_step:
  assumes inv: "discNotesInv fetchNotes mrIIDs s"
    and st: "discStep fetchNotes mrIIDs a s = Some s'"
  shows "discNotesInv fetchNotes mrIIDs s'"
proof (cases a)
  case (Worker i)
  with st have ws: "discWorkerStep fetchNotes mrIIDs i s = Some s'" by (simp add: discStep_def)
  then have i: "i < length (d_workers s)" by (auto simp: discWorkerStep_def split: if_splits)
  show ?thesis
  proof (cases "d_workers s ! i")
    case DClaim
    define w' :: "'a dstate" where
      "w' = (if nextIdx s \<ge> length mrIIDs then DReturned else DFetch (nextIdx s))"
    from ws i DClaim have s': "s' = s\<lparr>nextIdx := nextIdx s + 1,
                                       d_workers := (d_workers s)[i := w']\<rparr>"
      by (auto simp: discWorkerStep_def w'_def)
    show ?thesis
    proof (rule discNotes_worker [OF inv i, of s' w'])
      show "mset (concat (d_results s')) + dinflight fetchNotes mrIIDs w'
              + mset (concat (map fetchNotes (drop (nextIdx s') mrIIDs)))
            = mset (concat (d_results s)) + dinflight fetchNotes mrIIDs (d_workers s ! i)
              + mset (concat (map fetchNotes (drop (nextIdx s) mrIIDs)))"
      proof (cases "nextIdx s \<ge> length mrIIDs")
        case True
        then show ?thesis by (simp add: s' w'_def DClaim)
      next
        case False
        then have "drop (nextIdx s) mrIIDs = mrIIDs ! nextIdx s # drop (Suc (nextIdx s)) mrIIDs"
          by (simp add: Cons_nth_drop_Suc)
        then show ?thesis using False by (simp add: s' w'_def DClaim)
      qed
    qed (simp_all add: s')
  next
    case (DFetch idx)
    with ws i have s': "s' = s\<lparr>d_requested := d_requested s @ [(i, idx)],
                                d_workers := (d_workers s)[i := DSend (fetchNotes (mrIIDs ! idx))]\<rparr>"
      by (auto simp: discWorkerStep_def)
    show ?thesis
      by (rule discNotes_worker [OF inv i, of s' "DSend (fetchNotes (mrIIDs ! idx))"])
         (simp_all add: s' DFetch)
  next
    case (DSend ns)
    with ws i have s': "s' = s\<lparr>d_results := d_results s @ [ns],
                                d_workers := (d_workers s)[i := DCount]\<rparr>"
      by (auto simp: discWorkerStep_def split: if_splits)
    show ?thesis
      by (rule discNotes_worker [OF inv i, of s' DCount]) (simp_all add: s' DSend)
  next
    case DCount
    with ws i have s': "s' = s\<lparr>done_count := done_count s + 1,
                                d_workers := (d_workers s)[i := DClaim]\<rparr>"
      by (auto simp: discWorkerStep_def)
    show ?thesis
      by (rule discNotes_worker [OF inv i, of s' DClaim]) (simp_all add: s' DCount)
  next
    case DReturned
    with ws i show ?thesis by (auto simp: discWorkerStep_def)
  qed
next
  case Closer
  with st have s': "s' = s\<lparr>d_closed := True\<rparr>"
    by (auto simp: discStep_def split: if_splits)
  show ?thesis using inv unfolding s' discNotesInv_def by simp
next
  case Caller
  show ?thesis
  proof (cases "d_results s")
    case Nil
    with st Caller have s': "s' = s\<lparr>d_returned := True\<rparr>"
      by (auto simp: discStep_def split: if_splits)
    show ?thesis using inv unfolding s' discNotesInv_def by simp
  next
    case (Cons ns rest)
    with st Caller have s': "s' = s\<lparr>d_results := rest, allNotes := allNotes s @ ns\<rparr>"
      by (auto simp: discStep_def split: if_splits)
    show ?thesis using inv unfolding s' discNotesInv_def by (simp add: Cons ac_simps)
  qed
qed

lemma discNotes_init: "discNotesInv fetchNotes mrIIDs (discInit N)"
  by (simp add: discNotesInv_def discInit_def sum_list_replicate_empty)

lemma discNotes_run:
  "discNotesInv fetchNotes mrIIDs s \<Longrightarrow> discRun fetchNotes mrIIDs sched s = Some s'
     \<Longrightarrow> discNotesInv fetchNotes mrIIDs s'"
proof (induction sched arbitrary: s)
  case Nil
  then show ?case by simp
next
  case (Cons a sched)
  from Cons.prems(2) obtain s1 where s1: "discStep fetchNotes mrIIDs a s = Some s1"
    and r: "discRun fetchNotes mrIIDs sched s1 = Some s'"
    by (auto split: option.splits)
  from Cons.IH [OF discNotes_step [OF Cons.prems(1) s1] r] show ?case .
qed

lemma all_dreturned_inflight:
  assumes "list_all (\<lambda>w. w = DReturned) ws"
  shows "sum_list (map (dinflight fetchNotes mrIIDs) ws) = {#}"
  using assms by (induction ws) simp_all

lemma discRun_append:
  "discRun fetchNotes mrIIDs (xs @ ys) s
     = (case discRun fetchNotes mrIIDs xs s of
          None \<Rightarrow> None
        | Some s' \<Rightarrow> discRun fetchNotes mrIIDs ys s')"
  by (induction xs arbitrary: s) (auto split: option.splits)

section \<open>C5: the requests of fetchDiscussions\<close>

text \<open>
  C5, as the code has it. Let the number of workers be at least 1. Then
  \<open>fetchDiscussions\<close> panics exactly when \<open>make\<close> cannot make the channel; the capacity
  made is twice the number of workers; and when the channel is made, for every list of
  \<open>M\<close> merge-request identifiers and in every interleaving: each request is for an index
  of the list, made by one of the workers, and no index is requested twice; the run
  takes at most \<open>5M + N + 2\<close> steps and is never stuck before the caller returns; and
  when the caller returns, exactly \<open>M\<close> requests have been made, one for each index \<open>0\<close>
  to \<open>M - 1\<close>, and the notes returned are, as a multiset, those of all the merge requests.
\<close>

theorem C5_one_request_per_index:
  assumes "0 < sint nWorkers"
  shows "(fetchDiscussions maxCap listDiscussions mrIIDs nWorkers sched = PanicMakechan
            \<longleftrightarrow> makeChan maxCap nWorkers = None)
       \<and> (\<forall>capacity. makeChan maxCap nWorkers = Some capacity
            \<longrightarrow> capacity = 2 * numWorkers nWorkers
              \<and> fetchDiscussions maxCap listDiscussions mrIIDs nWorkers []
                  = Started (Some (discInit (numWorkers nWorkers))))
       \<and> (\<forall>s. fetchDiscussions maxCap listDiscussions mrIIDs nWorkers sched = Started (Some s)
            \<longrightarrow>
            distinct (map snd (d_requested s))
          \<and> (\<forall>r \<in> set (d_requested s). fst r < numWorkers nWorkers \<and> snd r < length mrIIDs)
          \<and> length sched \<le> 5 * length mrIIDs + numWorkers nWorkers + 2
          \<and> (\<not> d_returned s \<longrightarrow>
               (\<exists>a s'. fetchDiscussions maxCap listDiscussions mrIIDs nWorkers (sched @ [a])
                          = Started (Some s')))
          \<and> (d_returned s \<longrightarrow>
               length (d_requested s) = length mrIIDs
             \<and> mset (map snd (d_requested s)) = mset [0..<length mrIIDs]
             \<and> mset (allNotes s)
                 = mset (concat (map (fetchMRDiscussions listDiscussions) mrIIDs))))"
proof -
  let ?M = "length mrIIDs" and ?N = "numWorkers nWorkers"
  let ?f = "fetchMRDiscussions listDiscussions"
  have n: "1 \<le> ?N" by (rule numWorkers_pos [OF assms])
  have a: "fetchDiscussions maxCap listDiscussions mrIIDs nWorkers sched = PanicMakechan
            \<longleftrightarrow> makeChan maxCap nWorkers = None"
    by (simp add: fetchDiscussions_def split: option.splits)
  have b: "\<forall>capacity. makeChan maxCap nWorkers = Some capacity
            \<longrightarrow> capacity = 2 * ?N
              \<and> fetchDiscussions maxCap listDiscussions mrIIDs nWorkers []
                  = Started (Some (discInit ?N))"
    using makeChan_capacity(1) [OF _ assms] by (auto simp: fetchDiscussions_def)
  have c: "\<forall>s. fetchDiscussions maxCap listDiscussions mrIIDs nWorkers sched = Started (Some s)
            \<longrightarrow>
            distinct (map snd (d_requested s))
          \<and> (\<forall>r \<in> set (d_requested s). fst r < ?N \<and> snd r < ?M)
          \<and> length sched \<le> 5 * ?M + ?N + 2
          \<and> (\<not> d_returned s \<longrightarrow>
               (\<exists>a s'. fetchDiscussions maxCap listDiscussions mrIIDs nWorkers (sched @ [a])
                          = Started (Some s')))
          \<and> (d_returned s \<longrightarrow>
               length (d_requested s) = ?M
             \<and> mset (map snd (d_requested s)) = mset [0..<?M]
             \<and> mset (allNotes s) = mset (concat (map ?f mrIIDs)))"
  proof (intro allI impI)
    fix s
    assume "fetchDiscussions maxCap listDiscussions mrIIDs nWorkers sched = Started (Some s)"
    then obtain capacity where mk: "makeChan maxCap nWorkers = Some capacity"
      and run: "discRun ?f mrIIDs sched (discInit ?N) = Some s"
      by (auto simp: fetchDiscussions_def split: option.splits)
    have inv: "discInv ?M ?N s"
      by (rule discRun_inv [OF discInv_init run])
    have ninv: "discNotesInv ?f mrIIDs s"
      by (rule discNotes_run [OF discNotes_init run])
    note D = discInvD [OF inv]
    have d: "distinct (map snd (d_requested s))"
      by (rule distinct_of_part [OF D(2)]) simp
    have w: "\<forall>r \<in> set (d_requested s). fst r < ?N \<and> snd r < ?M"
    proof
      fix r assume r: "r \<in> set (d_requested s)"
      then have "snd r \<in> set (map snd (d_requested s))" by simp
      then have "snd r \<in> set [0..<min (nextIdx s) ?M]" using set_of_part [OF D(2)] by blast
      then show "fst r < ?N \<and> snd r < ?M" using D(3) [OF r] by simp
    qed
    have l: "length sched \<le> 5 * ?M + ?N + 2"
      using discRun_measure [OF run] by (simp add: discMeasure_init)
    have p: "\<not> d_returned s \<longrightarrow>
               (\<exists>a s'. fetchDiscussions maxCap listDiscussions mrIIDs nWorkers (sched @ [a])
                          = Started (Some s'))"
    proof
      assume "\<not> d_returned s"
      with disc_progress [of s ?f mrIIDs] obtain a s' where "discStep ?f mrIIDs a s = Some s'"
        by blast
      then have "discRun ?f mrIIDs (sched @ [a]) (discInit ?N) = Some s'"
        by (simp add: discRun_append run)
      then show "\<exists>a s'. fetchDiscussions maxCap listDiscussions mrIIDs nWorkers (sched @ [a])
                          = Started (Some s')"
        by (auto simp: fetchDiscussions_def mk)
    qed
    have r: "d_returned s \<longrightarrow>
               length (d_requested s) = ?M
             \<and> mset (map snd (d_requested s)) = mset [0..<?M]
             \<and> mset (allNotes s) = mset (concat (map ?f mrIIDs))"
    proof
      assume "d_returned s"
      from D(6) [OF this] have c: "d_closed s" and e: "d_results s = []" by simp_all
      from D(5) [OF c] have all: "list_all (\<lambda>w. w = DReturned) (d_workers s)" .
      have "d_workers s \<noteq> []" using D(1) n by auto
      then obtain x xs where "d_workers s = x # xs" by (cases "d_workers s") auto
      with all have "DReturned \<in> set (d_workers s)" by simp
      from D(4) [OF this] have ge: "?M \<le> nextIdx s" .
      then have "min (nextIdx s) ?M = ?M" by simp
      with D(2) all_dreturned_sum [OF all]
      have m: "mset (map snd (d_requested s)) = mset [0..<?M]" by simp
      then have "length (map snd (d_requested s)) = length [0..<?M]"
        by (rule mset_eq_length)
      then have len: "length (d_requested s) = ?M" by simp
      have "mset (allNotes s) = mset (concat (map ?f mrIIDs))"
        using ninv ge e all_dreturned_inflight [OF all, of ?f mrIIDs]
        unfolding discNotesInv_def by simp
      with len m show "length (d_requested s) = ?M
             \<and> mset (map snd (d_requested s)) = mset [0..<?M]
             \<and> mset (allNotes s) = mset (concat (map ?f mrIIDs))" by (intro conjI)
    qed
    from d w l p r show "distinct (map snd (d_requested s))
          \<and> (\<forall>r \<in> set (d_requested s). fst r < ?N \<and> snd r < ?M)
          \<and> length sched \<le> 5 * ?M + ?N + 2
          \<and> (\<not> d_returned s \<longrightarrow>
               (\<exists>a s'. fetchDiscussions maxCap listDiscussions mrIIDs nWorkers (sched @ [a])
                          = Started (Some s')))
          \<and> (d_returned s \<longrightarrow>
               length (d_requested s) = ?M
             \<and> mset (map snd (d_requested s)) = mset [0..<?M]
             \<and> mset (allNotes s) = mset (concat (map ?f mrIIDs)))" by (intro conjI)
  qed
  from a b c show ?thesis by (intro conjI)
qed

lemma fetchDiscussions_example:
  "fetchDiscussions exampleMaxCap exampleDiscussions threeMRs 2 discussionSchedule =
     Started (Some \<lparr>nextIdx = 5, d_results = [], d_closed = True,
           d_workers = [DReturned, DReturned], allNotes = ''xyz'',
           d_returned = True, done_count = 3,
           d_requested = [(0, 0), (1, 1), (0, 2)]\<rparr>)"
  by (simp add: fetchDiscussions_def makeChan_2 numWorkers_2 run_discussions)

text \<open>Two workers on three merge requests, run to the caller's return.\<close>

theorem C5_one_request_per_index_witness:
  "0 < sint (2 :: int64)
   \<and> makeChan exampleMaxCap 2 = Some (2 * numWorkers 2)
   \<and> (\<exists>s. fetchDiscussions exampleMaxCap exampleDiscussions threeMRs 2 discussionSchedule
             = Started (Some s)
          \<and> d_returned s \<and> d_requested s = [(0, 0), (1, 1), (0, 2)]
          \<and> allNotes s = ''xyz''
          \<and> length (d_requested s) = length threeMRs
          \<and> distinct (map snd (d_requested s))
          \<and> mset (allNotes s)
              = mset (concat (map (fetchMRDiscussions exampleDiscussions) threeMRs)))"
proof -
  have n: "0 < sint (2 :: int64)" by simp
  from C5_one_request_per_index [where maxCap = exampleMaxCap and sched = discussionSchedule
      and listDiscussions = exampleDiscussions and mrIIDs = threeMRs, OF n]
    n fetchDiscussions_example
  show ?thesis by (simp add: makeChan_2)
qed

text \<open>
  C5 as stated fails for a number of workers whose double wraps around: \<open>make\<close> panics,
  no request is made and nothing is returned.
\<close>

theorem C5_counterexample:
  "0 < sint (4611686018427387904 :: int64)
   \<and> fetchDiscussions exampleMaxCap exampleDiscussions threeMRs 4611686018427387904
        discussionSchedule = PanicMakechan
   \<and> fetchDiscussions exampleMaxCap exampleDiscussions threeMRs 4611686018427387904 []
        = PanicMakechan"
  by (simp add: fetchDiscussions_def makeChan_wraps)

section \<open>No worker: lemmas\<close>









section \<open>C10: GITLAB_WORKERS that is not an integer\<close>



end
